theory Spec2Isabelle
  imports
    Main
    "HOL-Library.List_Lexorder"
    "HOL-Library.Mapping"
    "HOL-Library.AList_Mapping"
    "HOL-Library.Multiset"
begin

section \<open>Strings and characters\<close>

text \<open>
  A Python \<open>str\<close> is a sequence of Unicode code points, and \<open>len\<close>, indexing,
  comparison and the regular expressions all work on code points. A string is
  therefore a list of code points; the order on strings is the lexicographic one
  on code points (\<open>List_Lexorder\<close>), which is the order \<open>sorted\<close> uses.
\<close>

type_synonym ustring = "nat list"

text \<open>An ASCII literal of the source as a list of code points.\<close>

definition ustr :: "string \<Rightarrow> ustring" where
  "ustr s = map of_char s"

text \<open>
  \<open>str.lower\<close>, for the Basic Latin capitals and for the capitals of the Cyrillic
  block U+0400..U+042F (\<open>U+0401\<close> is the capital of \<open>U+0451\<close>, the letter yo). Every
  other code point stands for itself in this model. Under \<open>str.lower\<close> no
  other code point becomes a letter of the word pattern below, and no letter of
  the pattern stops being one, so the tokens of a text do not depend on the rest
  of the mapping. None of the theorems below unfolds the mapping, except where a
  concrete page is evaluated.
\<close>

definition lower_cp :: "nat \<Rightarrow> nat" where
  "lower_cp c =
     (if 0x41 \<le> c \<and> c \<le> 0x5A then c + 0x20
      else if 0x400 \<le> c \<and> c \<le> 0x40F then c + 0x50
      else if 0x410 \<le> c \<and> c \<le> 0x42F then c + 0x20
      else c)"

definition py_lower :: "ustring \<Rightarrow> ustring" where
  "py_lower s = map lower_cp s"

text \<open>
  \<open>str.isdigit\<close>: the code points with the Unicode property Digit or Decimal,
  as ranges (Unicode 14, the tables of CPython 3.11).
\<close>

definition digit_ranges :: "(nat \<times> nat) list" where
  "digit_ranges =
    [(0x30, 0x39), (0xB2, 0xB3), (0xB9, 0xB9), (0x660, 0x669), (0x6F0, 0x6F9),
     (0x7C0, 0x7C9), (0x966, 0x96F), (0x9E6, 0x9EF), (0xA66, 0xA6F), (0xAE6, 0xAEF),
     (0xB66, 0xB6F), (0xBE6, 0xBEF), (0xC66, 0xC6F), (0xCE6, 0xCEF), (0xD66, 0xD6F),
     (0xDE6, 0xDEF), (0xE50, 0xE59), (0xED0, 0xED9), (0xF20, 0xF29), (0x1040, 0x1049),
     (0x1090, 0x1099), (0x1369, 0x1371), (0x17E0, 0x17E9), (0x1810, 0x1819),
     (0x1946, 0x194F), (0x19D0, 0x19DA), (0x1A80, 0x1A89), (0x1A90, 0x1A99),
     (0x1B50, 0x1B59), (0x1BB0, 0x1BB9), (0x1C40, 0x1C49), (0x1C50, 0x1C59),
     (0x2070, 0x2070), (0x2074, 0x2079), (0x2080, 0x2089), (0x2460, 0x2468),
     (0x2474, 0x247C), (0x2488, 0x2490), (0x24EA, 0x24EA), (0x24F5, 0x24FD),
     (0x24FF, 0x24FF), (0x2776, 0x277E), (0x2780, 0x2788), (0x278A, 0x2792),
     (0xA620, 0xA629), (0xA8D0, 0xA8D9), (0xA900, 0xA909), (0xA9D0, 0xA9D9),
     (0xA9F0, 0xA9F9), (0xAA50, 0xAA59), (0xABF0, 0xABF9), (0xFF10, 0xFF19),
     (0x104A0, 0x104A9), (0x10A40, 0x10A43), (0x10D30, 0x10D39), (0x10E60, 0x10E68),
     (0x11052, 0x1105A), (0x11066, 0x1106F), (0x110F0, 0x110F9), (0x11136, 0x1113F),
     (0x111D0, 0x111D9), (0x112F0, 0x112F9), (0x11450, 0x11459), (0x114D0, 0x114D9),
     (0x11650, 0x11659), (0x116C0, 0x116C9), (0x11730, 0x11739), (0x118E0, 0x118E9),
     (0x11950, 0x11959), (0x11C50, 0x11C59), (0x11D50, 0x11D59), (0x11DA0, 0x11DA9),
     (0x16A60, 0x16A69), (0x16AC0, 0x16AC9), (0x16B50, 0x16B59), (0x1D7CE, 0x1D7FF),
     (0x1E140, 0x1E149), (0x1E2F0, 0x1E2F9), (0x1E950, 0x1E959), (0x1F100, 0x1F10A),
     (0x1FBF0, 0x1FBF9)]"

fun in_ranges :: "nat \<Rightarrow> (nat \<times> nat) list \<Rightarrow> bool" where
  "in_ranges c [] = False"
| "in_ranges c ((lo, hi) # rs) = ((lo \<le> c \<and> c \<le> hi) \<or> in_ranges c rs)"

definition py_isdigit :: "nat \<Rightarrow> bool" where
  "py_isdigit c = in_ranges c digit_ranges"

text \<open>\<open>any(ch.isdigit() for ch in tok)\<close>\<close>

definition any_isdigit :: "ustring \<Rightarrow> bool" where
  "any_isdigit tok = list_ex py_isdigit tok"


section \<open>The word pattern\<close>

text \<open>
  \<open>RE_RU_WORD = re.compile(r"[\<dots>]{2,}", re.IGNORECASE)\<close>, the class being the range
  U+0430..U+044F and the letter U+0451. For a class compiled with \<open>IGNORECASE\<close> the
  \<open>re\<close> module stores the lower-cased members of the class together with their
  other lower-case equivalents, and a character matches when its lower-case form
  is in the stored set. The equivalents of the Cyrillic letters ve, de, o, es, te
  and hard sign are the letters U+1C80..U+1C86 (rounded ve, long-legged de,
  narrow o, wide es, tall te, three-legged te, tall hard sign), so the stored set
  holds them too.
\<close>

definition ru_charset :: "nat \<Rightarrow> bool" where
  "ru_charset c \<longleftrightarrow>
     (0x430 \<le> c \<and> c \<le> 0x44F) \<or> c = 0x451 \<or> (0x1C80 \<le> c \<and> c \<le> 0x1C86)"

definition ru_word_char :: "nat \<Rightarrow> bool" where
  "ru_word_char c \<longleftrightarrow> ru_charset (lower_cp c)"

text \<open>
  \<open>RE_RU_WORD.findall\<close>: the matches from left to right, not overlapping. At a
  position the greedy \<open>{2,}\<close> takes the longest run of class characters that starts
  there; with fewer than two the position does not match and the scan moves one
  character on.
\<close>

function findall_ru :: "ustring \<Rightarrow> ustring list" where
  "findall_ru [] = []"
| "findall_ru (c # cs) =
     (let m = takeWhile ru_word_char (c # cs) in
      if 2 \<le> length m then m # findall_ru (dropWhile ru_word_char (c # cs))
      else findall_ru cs)"
  by pat_completeness auto
termination
proof (relation "measure length")
  show "wf (measure length)" by simp
next
  fix c :: nat and cs m
  assume m: "m = takeWhile ru_word_char (c # cs)" and two: "2 \<le> length m"
  have "length (takeWhile ru_word_char (c # cs)) + length (dropWhile ru_word_char (c # cs))
        = length (c # cs)"
    by (metis length_append takeWhile_dropWhile_id)
  with m two show "(dropWhile ru_word_char (c # cs), c # cs) \<in> measure length"
    by simp
next
  fix c :: nat and cs m
  show "(cs, c # cs) \<in> measure length" by simp
qed

text \<open>\<open>RE_RU_WORD.fullmatch(s)\<close> as a truth value: the whole of \<open>s\<close> is one match.\<close>

definition fullmatch_ru :: "ustring \<Rightarrow> bool" where
  "fullmatch_ru s \<longleftrightarrow> 2 \<le> length s \<and> list_all ru_word_char s"


section \<open>The tokenizer\<close>

definition tokenize :: "ustring \<Rightarrow> ustring list" where
  "tokenize text =
     (let text' = py_lower text;
          tokens = findall_ru text'
      in filter (\<lambda>t. 2 \<le> length t \<and> length t \<le> 40) tokens)"


section \<open>The text extractor\<close>

text \<open>
  \<open>HTMLParser.feed\<close> scans the markup and calls \<open>handle_starttag\<close>,
  \<open>handle_endtag\<close> and \<open>handle_data\<close> of the subclass; an event stands for one
  such call. The extractor object is the record of its two fields.
\<close>

datatype event = StartTag ustring | EndTag ustring | Data ustring

record extractor =
  parts :: "ustring list"
  skip :: int

definition new_extractor :: extractor where
  "new_extractor = \<lparr>parts = [], skip = 0\<rparr>"

definition skip_tags :: "ustring set" where
  "skip_tags = {ustr ''script'', ustr ''style'', ustr ''noscript''}"

definition handle_starttag :: "ustring \<Rightarrow> extractor \<Rightarrow> extractor" where
  "handle_starttag tag x =
     (let t = py_lower tag in
      if t \<in> skip_tags then x\<lparr>skip := skip x + 1\<rparr> else x)"

definition handle_endtag :: "ustring \<Rightarrow> extractor \<Rightarrow> extractor" where
  "handle_endtag tag x =
     (let t = py_lower tag in
      if t \<in> skip_tags \<and> skip x > 0 then x\<lparr>skip := skip x - 1\<rparr> else x)"

definition handle_data :: "ustring \<Rightarrow> extractor \<Rightarrow> extractor" where
  "handle_data data x =
     (if skip x = 0 \<and> data \<noteq> [] then x\<lparr>parts := parts x @ [data]\<rparr> else x)"

text \<open>\<open>sep.join(xs)\<close>\<close>

fun join :: "ustring \<Rightarrow> ustring list \<Rightarrow> ustring" where
  "join sep [] = []"
| "join sep [p] = p"
| "join sep (p # q # ps) = p @ sep @ join sep (q # ps)"

definition get_text :: "extractor \<Rightarrow> ustring" where
  "get_text x = join [0x20] (parts x)"

fun deliver :: "event \<Rightarrow> extractor \<Rightarrow> extractor" where
  "deliver (StartTag tag) x = handle_starttag tag x"
| "deliver (EndTag tag) x = handle_endtag tag x"
| "deliver (Data data) x = handle_data data x"

definition feed_events :: "event list \<Rightarrow> extractor \<Rightarrow> extractor" where
  "feed_events evs x = fold deliver evs x"

text \<open>
  \<open>html_to_text\<close>, for a parser given as the function from the markup to the calls
  it makes.
\<close>

definition html_to_text :: "(ustring \<Rightarrow> event list) \<Rightarrow> ustring \<Rightarrow> ustring" where
  "html_to_text parser html = get_text (feed_events (parser html) new_extractor)"


subsection \<open>The library parser on plain tags\<close>

text \<open>
  The scanning loop of \<open>HTMLParser\<close> (\<open>goahead\<close>, entered by \<open>feed\<close> and never
  by \<open>close\<close>, which \<open>html_to_text\<close> does not call) for markup made of character
  data, start tags \<open><name>\<close> and end tags \<open></name>\<close>, the name being an ASCII
  letter followed by ASCII letters and digits. Anything else (attributes,
  comments, declarations, a stray \<open><\<close>, data with an ampersand that has to be
  unescaped) is outside this fragment and gives \<open>None\<close>.

  After \<open><script>\<close> or \<open><style>\<close> the parser is in CDATA mode: the content up to
  the matching end tag is one piece of data, and without an end tag the parser
  waits for more input and calls nothing further.

  Outside CDATA mode, when no \<open><\<close> is left, the loop looks for the last ampersand
  among the last 34 characters: if there is one and neither white space nor a
  semicolon follows it, the rest may be a character reference cut in half, so
  the loop stops and keeps the rest in its buffer for a later \<open>feed\<close> or
  \<open>close\<close>; nothing of it is delivered.
\<close>

text \<open>The characters \<open>\s\<close> matches in a pattern on \<open>str\<close>, as ranges.\<close>

definition space_ranges :: "(nat \<times> nat) list" where
  "space_ranges =
    [(0x9, 0xD), (0x1C, 0x20), (0x85, 0x85), (0xA0, 0xA0), (0x1680, 0x1680),
     (0x2000, 0x200A), (0x2028, 0x2029), (0x202F, 0x202F), (0x205F, 0x205F),
     (0x3000, 0x3000)]"

definition space_or_semicolon :: "nat \<Rightarrow> bool" where
  "space_or_semicolon c \<longleftrightarrow> in_ranges c space_ranges \<or> c = 0x3B"

text \<open>
  \<open>amppos = rawdata.rfind('&', max(i, n-34))\<close> exists and the pattern \<open>[\s;]\<close> is
  not found from it on; \<open>rest\<close> is \<open>rawdata[i:]\<close>.
\<close>

definition amp_pending :: "ustring \<Rightarrow> bool" where
  "amp_pending rest =
     (let region = drop (length rest - 34) rest
      in 0x26 \<in> set region
         \<and> \<not> list_ex space_or_semicolon (takeWhile (\<lambda>c. c \<noteq> 0x26) (rev region)))"

definition is_ascii_alpha :: "nat \<Rightarrow> bool" where
  "is_ascii_alpha c \<longleftrightarrow> (0x41 \<le> c \<and> c \<le> 0x5A) \<or> (0x61 \<le> c \<and> c \<le> 0x7A)"

definition is_ascii_alnum :: "nat \<Rightarrow> bool" where
  "is_ascii_alnum c \<longleftrightarrow> is_ascii_alpha c \<or> (0x30 \<le> c \<and> c \<le> 0x39)"

text \<open>The tag name (lower-cased) and what follows the closing \<open>>\<close>.\<close>

definition parse_tag :: "ustring \<Rightarrow> (ustring \<times> ustring) option" where
  "parse_tag s =
     (case (takeWhile is_ascii_alnum s, dropWhile is_ascii_alnum s) of
        (n # name, g # rest) \<Rightarrow>
          if is_ascii_alpha n \<and> g = 0x3E then Some (py_lower (n # name), rest) else None
      | _ \<Rightarrow> None)"

definition cdata_content_elements :: "ustring set" where
  "cdata_content_elements = {ustr ''script'', ustr ''style''}"

function goahead :: "ustring option \<Rightarrow> ustring \<Rightarrow> event list option" where
  "goahead cdata_elem rawdata =
     (if rawdata = [] then Some []
      else
        let d = takeWhile (\<lambda>c. c \<noteq> 0x3C) rawdata;
            r = dropWhile (\<lambda>c. c \<noteq> 0x3C) rawdata;
            text = (if d = [] then [] else [Data d])
        in case cdata_elem of
          None \<Rightarrow>
            (case r of
               [] \<Rightarrow>
                 if amp_pending rawdata then Some []
                 else if 0x26 \<in> set d then None
                 else Some text
             | lt # r1 \<Rightarrow>
                if 0x26 \<in> set d then None
                else
                  (case r1 of
                     [] \<Rightarrow> None
                   | c # r2 \<Rightarrow>
                      if c = 0x2F then
                        (case parse_tag r2 of
                           None \<Rightarrow> None
                         | Some (n, r3) \<Rightarrow>
                            map_option (\<lambda>es. text @ EndTag n # es) (goahead None r3))
                      else
                        (case parse_tag r1 of
                           None \<Rightarrow> None
                         | Some (n, r3) \<Rightarrow>
                            map_option (\<lambda>es. text @ StartTag n # es)
                              (goahead
                                 (if n \<in> cdata_content_elements then Some n else None) r3))))
        | Some elem \<Rightarrow>
            (case r of
               [] \<Rightarrow> Some []
             | lt # r1 \<Rightarrow>
                (case r1 of
                   [] \<Rightarrow> None
                 | c # r2 \<Rightarrow>
                    if c = 0x2F then
                      (case parse_tag r2 of
                         None \<Rightarrow> None
                       | Some (n, r3) \<Rightarrow>
                          if n = elem
                          then map_option (\<lambda>es. text @ EndTag n # es) (goahead None r3)
                          else None)
                    else None)))"
  by pat_completeness auto
termination
proof -
  have shorter: "length r3 < length s" if "parse_tag s = Some (n, r3)" for s n r3
  proof -
    from that obtain g where "dropWhile is_ascii_alnum s = g # r3"
      by (auto simp: parse_tag_def split: list.splits if_splits)
    then have "length r3 < length (dropWhile is_ascii_alnum s)" by simp
    also have "\<dots> \<le> length s" by (rule length_dropWhile_le)
    finally show ?thesis .
  qed
  have suffix: "length r1 < length raw" if "lt # r1 = dropWhile P raw"
    for P and raw :: ustring and lt r1
    using length_dropWhile_le[of P raw] that[symmetric] by simp
  show ?thesis
    by (relation "measure (\<lambda>(e, raw). length raw)") (auto dest!: shorter suffix)
qed

declare goahead.simps [simp del]

text \<open>The text of a page of this fragment.\<close>

definition html_to_text_plain :: "ustring \<Rightarrow> ustring option" where
  "html_to_text_plain html =
     map_option (\<lambda>evs. get_text (feed_events evs new_extractor)) (goahead None html)"

text \<open>
  The page of the scenario of the specification: a \<open>script\<close> element holding a
  word and the digits 123, then a paragraph holding two words, the first with a
  capital letter.
\<close>

definition scenario_page :: ustring where
  "scenario_page =
     ustr ''<script>'' @ [0x43C, 0x443, 0x441, 0x43E, 0x440, 0x31, 0x32, 0x33]
     @ ustr ''</script><p>''
     @ [0x41F, 0x440, 0x438, 0x432, 0x435, 0x442, 0x20, 0x43C, 0x438, 0x440]
     @ ustr ''</p>''"


section \<open>The morphological analyzer\<close>

text \<open>
  A parse of the analyzer, with the two attributes the program reads:
  \<open>p.tag.POS\<close> (a tag name, or \<open>None\<close> where the analyzer gives no part of
  speech) and \<open>p.normal_form\<close>. The analyzer \<open>morph.parse\<close> is a function from
  a word to its ranked parses; it is a parameter of everything below.
\<close>

record parse =
  pos :: "string option"
  normal_form :: ustring

type_synonym analyzer = "ustring \<Rightarrow> parse list"


section \<open>Filtering and grouping\<close>

datatype error = FileNotFoundError ustring | KeyError ustring

text \<open>The two containers the loop of \<open>main\<close> fills.\<close>

record agg =
  tokens_set :: "ustring set"
  lemma_to_tokens :: "(ustring, ustring set) mapping"

definition bad_pos :: "string set" where
  "bad_pos = {''PREP'', ''CONJ'', ''PRCL'', ''INTJ''}"

text \<open>
  The body of \<open>for tok in all_tokens\<close>; a \<open>continue\<close> leaves the containers as
  they are. The subscript \<open>lemma_to_tokens[lemma]\<close> raises \<open>KeyError\<close> on a
  missing key.
\<close>

definition agg_step :: "analyzer \<Rightarrow> ustring \<Rightarrow> agg \<Rightarrow> error + agg" where
  "agg_step morph tok st =
     (if any_isdigit tok then Inr st
      else
        case morph tok of
          [] \<Rightarrow> Inr st
        | p # _ \<Rightarrow>
           let tag_pos = pos p;
               lem = normal_form p
           in
             if (case tag_pos of None \<Rightarrow> False | Some s \<Rightarrow> s \<in> bad_pos) then Inr st
             else if \<not> fullmatch_ru lem \<or> \<not> (2 \<le> length lem \<and> length lem \<le> 40)
             then Inr st
             else
               let ts = insert tok (tokens_set st);
                   m = lemma_to_tokens st;
                   m1 = (if Mapping.lookup m lem = None then Mapping.update lem {} m else m)
               in
                 (case Mapping.lookup m1 lem of
                    None \<Rightarrow> Inl (KeyError lem)
                  | Some s \<Rightarrow>
                      Inr \<lparr>tokens_set = ts,
                           lemma_to_tokens = Mapping.update lem (insert tok s) m1\<rparr>))"

fun aggregate :: "analyzer \<Rightarrow> ustring list \<Rightarrow> agg \<Rightarrow> error + agg" where
  "aggregate morph [] st = Inr st"
| "aggregate morph (tok # toks) st =
     (case agg_step morph tok st of
        Inl e \<Rightarrow> Inl e
      | Inr st' \<Rightarrow> aggregate morph toks st')"

definition empty_agg :: agg where
  "empty_agg = \<lparr>tokens_set = {}, lemma_to_tokens = Mapping.empty\<rparr>"


section \<open>The run\<close>

text \<open>
  What \<open>main\<close> reads and writes: whether \<open>pages\<close> is a directory, the paths
  \<open>glob\<close> returns for \<open>pages/*.txt\<close> (in any order), the decoded text of each
  path, the two output files (\<open>None\<close> while not written) and the two counts of
  the closing report.
\<close>

record world =
  pages_isdir :: bool
  pages_glob :: "ustring list"
  file_text :: "ustring \<Rightarrow> ustring"
  tokens_txt :: "ustring option"
  lemmas_txt :: "ustring option"
  report :: "(nat \<times> nat) option"

definition msg_no_dir :: ustring where
  "msg_no_dir =
    [0x41D, 0x435, 0x442, 0x20, 0x43F, 0x430, 0x43F, 0x43A, 0x438, 0x20, 0x70, 0x61, 0x67,
     0x65, 0x73, 0x2F, 0x20, 0x28, 0x441, 0x43D, 0x430, 0x447, 0x430, 0x43B, 0x430, 0x20,
     0x437, 0x430, 0x43F, 0x443, 0x441, 0x442, 0x438, 0x442, 0x435, 0x20, 0x43A, 0x440,
     0x430, 0x443, 0x43B, 0x435, 0x440, 0x29]"

definition msg_no_files :: ustring where
  "msg_no_files =
    [0x412, 0x20, 0x70, 0x61, 0x67, 0x65, 0x73, 0x2F, 0x20, 0x43D, 0x435, 0x442, 0x20,
     0x2A, 0x2E, 0x74, 0x78, 0x74, 0x20, 0x444, 0x430, 0x439, 0x43B, 0x43E, 0x432]"

text \<open>The loop over the files: \<open>all_tokens.extend(tokenize(html_to_text(html)))\<close>.\<close>

fun collect_tokens ::
  "(ustring \<Rightarrow> event list) \<Rightarrow> (ustring \<Rightarrow> ustring) \<Rightarrow> ustring list \<Rightarrow> ustring list
   \<Rightarrow> ustring list" where
  "collect_tokens parser rd [] all_tokens = all_tokens"
| "collect_tokens parser rd (path # files) all_tokens =
     collect_tokens parser rd files
       (all_tokens @ tokenize (html_to_text parser (rd path)))"

text \<open>The lines written to \<open>tokens.txt\<close>.\<close>

definition write_tokens :: "ustring list \<Rightarrow> ustring" where
  "write_tokens tokens_list = concat (map (\<lambda>t. t @ [0x0A]) tokens_list)"

text \<open>One line of \<open>lemmas.txt\<close>: \<open>lemma + " " + " ".join(toks) + "\n"\<close>.\<close>

definition lemma_line :: "ustring \<Rightarrow> ustring list \<Rightarrow> ustring" where
  "lemma_line lem toks = lem @ [0x20] @ join [0x20] toks @ [0x0A]"

text \<open>
  The loop that writes \<open>lemmas.txt\<close>, with what is in the file so far; a
  \<open>KeyError\<close> of the subscript stops it.
\<close>

fun write_lemmas ::
  "(ustring, ustring set) mapping \<Rightarrow> ustring list \<Rightarrow> ustring \<Rightarrow> ustring \<times> error option" where
  "write_lemmas m [] out = (out, None)"
| "write_lemmas m (lem # lems) out =
     (case Mapping.lookup m lem of
        None \<Rightarrow> (out, Some (KeyError lem))
      | Some s \<Rightarrow> write_lemmas m lems (out @ lemma_line lem (sorted_list_of_set s)))"

text \<open>
  \<open>main\<close> from the loop over the files on, for the files in the order given.
  Opening, reading and writing are taken to succeed: this is the run in which no
  call of \<open>open\<close>, \<open>read\<close> or \<open>write\<close> raises. A run in which one of them raises
  ends there with that exception and is not a run of this function.
\<close>

definition process ::
  "(ustring \<Rightarrow> event list) \<Rightarrow> analyzer \<Rightarrow> ustring list \<Rightarrow> world \<Rightarrow> (error + unit) \<times> world" where
  "process parser morph files w =
     (let all_tokens = collect_tokens parser (file_text w) files [] in
      case aggregate morph all_tokens empty_agg of
        Inl e \<Rightarrow> (Inl e, w)
      | Inr st \<Rightarrow>
         let tokens_list = sorted_list_of_set (tokens_set st);
             w1 = w\<lparr>tokens_txt := Some (write_tokens tokens_list)\<rparr>;
             m = lemma_to_tokens st;
             written = write_lemmas m (sorted_list_of_set (Mapping.keys m)) [];
             w2 = w1\<lparr>lemmas_txt := Some (fst written)\<rparr>
         in
           (case snd written of
              Some e \<Rightarrow> (Inl e, w2)
            | None \<Rightarrow>
               (Inr (), w2\<lparr>report := Some (length tokens_list, card (Mapping.keys m))\<rparr>)))"

text \<open>
  \<open>main\<close>, with its two raises. The analyzer is constructed between the two
  checks; it is taken as constructed, \<open>morph\<close> being its method \<open>parse\<close>. The
  result is the exception or the return, with the world as the run leaves it.
\<close>

definition main ::
  "(ustring \<Rightarrow> event list) \<Rightarrow> analyzer \<Rightarrow> world \<Rightarrow> (error + unit) \<times> world" where
  "main parser morph w =
     (if \<not> pages_isdir w then (Inl (FileNotFoundError msg_no_dir), w)
      else
        let files = sort (pages_glob w) in
        if files = [] then (Inl (FileNotFoundError msg_no_files), w)
        else process parser morph files w)"

text \<open>
  The status of the process: an exception that leaves \<open>main\<close> ends the
  interpreter with status 1, a return with status 0.
\<close>

definition exit_status :: "error + unit \<Rightarrow> nat" where
  "exit_status r = (case r of Inl e \<Rightarrow> 1 | Inr u \<Rightarrow> 0)"


section \<open>The notions of the specification\<close>

text \<open>
  The definitions of this section follow the words of the specification; the
  theorems compare them with the definitions above, which follow the code.
\<close>

text \<open>The 33 lower-case letters of the Russian alphabet.\<close>

definition russian_letter :: "nat \<Rightarrow> bool" where
  "russian_letter c \<longleftrightarrow> (0x430 \<le> c \<and> c \<le> 0x44F) \<or> c = 0x451"

text \<open>
  The maximal runs of characters with a property, from left to right: \<open>cur\<close> is
  the run being read.
\<close>

fun runs :: "('a \<Rightarrow> bool) \<Rightarrow> 'a list \<Rightarrow> 'a list \<Rightarrow> 'a list list" where
  "runs P cur [] = (if cur = [] then [] else [cur])"
| "runs P cur (c # cs) =
     (if P c then runs P (cur @ [c]) cs
      else (if cur = [] then [] else [cur]) @ runs P [] cs)"

text \<open>
  \<open>r\<close> occurs in \<open>s\<close> between \<open>pre\<close> and \<open>post\<close> as a maximal run: it cannot be
  extended on either side.
\<close>

definition maximal_run_at :: "('a \<Rightarrow> bool) \<Rightarrow> 'a list \<Rightarrow> 'a list \<Rightarrow> 'a list \<Rightarrow> 'a list \<Rightarrow> bool" where
  "maximal_run_at P s pre r post \<longleftrightarrow>
     s = pre @ r @ post \<and> r \<noteq> [] \<and> list_all P r \<and>
     (pre = [] \<or> \<not> P (last pre)) \<and> (post = [] \<or> \<not> P (hd post))"

text \<open>
  The visible fragments of a sequence of parser calls, for a skip depth \<open>d\<close>:
  a skipped tag raises the depth, its end tag lowers it (not below 0), and
  non-empty data counts at depth 0 only.
\<close>

fun visible :: "nat \<Rightarrow> event list \<Rightarrow> ustring list" where
  "visible d [] = []"
| "visible d (StartTag tag # evs) =
     visible (if py_lower tag \<in> skip_tags then d + 1 else d) evs"
| "visible d (EndTag tag # evs) =
     visible (if py_lower tag \<in> skip_tags then d - 1 else d) evs"
| "visible d (Data data # evs) =
     (if d = 0 \<and> data \<noteq> [] then [data] else []) @ visible d evs"


text \<open>
  Reading a file back: its lines, each ended by a newline (a last line without
  one is kept), and the fields of a line between single spaces, as
  \<open>line.split(" ")\<close> gives them; \<open>cur\<close> is the line or the field being read.
\<close>

fun read_lines :: "ustring \<Rightarrow> ustring \<Rightarrow> ustring list" where
  "read_lines cur [] = (if cur = [] then [] else [cur])"
| "read_lines cur (c # cs) =
     (if c = 0x0A then cur # read_lines [] cs else read_lines (cur @ [c]) cs)"

fun line_fields :: "ustring \<Rightarrow> ustring \<Rightarrow> ustring list" where
  "line_fields cur [] = [cur]"
| "line_fields cur (c # cs) =
     (if c = 0x20 then cur # line_fields [] cs else line_fields (cur @ [c]) cs)"


section \<open>What the loop computes\<close>

text \<open>
  The definitions of this section are read off the code: they name what the
  loop of \<open>main\<close> checks and builds, so that its result can be stated in closed
  form. None of them is taken from the specification.
\<close>

text \<open>
  The check of the normal form in the loop: \<open>RE_RU_WORD.fullmatch\<close> and the
  bounds on the length, that is 2 to 40 letters of the word pattern.
\<close>

definition pattern_word :: "ustring \<Rightarrow> bool" where
  "pattern_word s \<longleftrightarrow> 2 \<le> length s \<and> length s \<le> 40 \<and> list_all ru_word_char s"

text \<open>The top-ranked parse of a token, if the analyzer returns any.\<close>

definition top_parse :: "analyzer \<Rightarrow> ustring \<Rightarrow> parse option" where
  "top_parse morph tok = (case morph tok of [] \<Rightarrow> None | p # ps \<Rightarrow> Some p)"

text \<open>
  A token for which no \<open>continue\<close> of the loop is taken, and the lemma it is
  filed under.
\<close>

definition accepted :: "analyzer \<Rightarrow> ustring \<Rightarrow> bool" where
  "accepted morph tok \<longleftrightarrow>
     \<not> list_ex py_isdigit tok \<and>
     (case top_parse morph tok of
        None \<Rightarrow> False
      | Some p \<Rightarrow>
          pos p \<notin> {Some ''PREP'', Some ''CONJ'', Some ''PRCL'', Some ''INTJ''} \<and>
          pattern_word (normal_form p))"

definition lemma_of :: "analyzer \<Rightarrow> ustring \<Rightarrow> ustring" where
  "lemma_of morph tok = (case top_parse morph tok of None \<Rightarrow> [] | Some p \<Rightarrow> normal_form p)"

text \<open>The tokens filed under a lemma in LemmaIndex: none when the lemma is no key.\<close>

definition tokens_under :: "(ustring, ustring set) mapping \<Rightarrow> ustring \<Rightarrow> ustring set" where
  "tokens_under m lem = (case Mapping.lookup m lem of None \<Rightarrow> {} | Some s \<Rightarrow> s)"

text \<open>
  The last three statements of the loop body: the token is added to
  \<open>tokens_set\<close> and to the set of its lemma, which is created when the lemma has
  none.
\<close>

definition add_token :: "ustring \<Rightarrow> ustring \<Rightarrow> agg \<Rightarrow> agg" where
  "add_token tok lem st =
     \<lparr>tokens_set = insert tok (tokens_set st),
      lemma_to_tokens =
        Mapping.update lem (insert tok (tokens_under (lemma_to_tokens st) lem))
          (lemma_to_tokens st)\<rparr>"

text \<open>The accepted tokens of a token sequence.\<close>

definition token_set_of :: "analyzer \<Rightarrow> ustring list \<Rightarrow> ustring set" where
  "token_set_of morph toks = set (filter (accepted morph) toks)"

text \<open>
  What the second writing loop puts on the lines of \<open>lemmas.txt\<close>: each key in
  sorted order with its tokens in sorted order.
\<close>

definition lemma_lines :: "(ustring, ustring set) mapping \<Rightarrow> (ustring \<times> ustring list) list" where
  "lemma_lines m =
     map (\<lambda>lem. (lem, sorted_list_of_set (tokens_under m lem)))
       (sorted_list_of_set (Mapping.keys m))"


section \<open>A scripted analyzer and a small corpus\<close>

text \<open>
  The parser of a run, for the pages of the fragment above; a page outside the
  fragment has no calls in this model.
\<close>

definition plain_parser :: "ustring \<Rightarrow> event list" where
  "plain_parser html = (case goahead None html of None \<Rightarrow> [] | Some evs \<Rightarrow> evs)"

text \<open>
  Four words, an analyzer scripted for them, a second page and the directory
  of the two pages: the concrete inputs on which the theorems are evaluated.
\<close>

definition w_mir :: ustring where "w_mir = [0x43C, 0x438, 0x440]"
definition w_mira :: ustring where "w_mira = [0x43C, 0x438, 0x440, 0x430]"
definition w_na :: ustring where "w_na = [0x43D, 0x430]"
definition w_privet :: ustring where "w_privet = [0x43F, 0x440, 0x438, 0x432, 0x435, 0x442]"

definition demo_morph :: analyzer where
  "demo_morph tok =
     (if tok = w_mir then [\<lparr>pos = Some ''NOUN'', normal_form = w_mir\<rparr>]
      else if tok = w_mira then
        [\<lparr>pos = Some ''NOUN'', normal_form = w_mir\<rparr>,
         \<lparr>pos = Some ''NOUN'', normal_form = w_mira\<rparr>]
      else if tok = w_na then
        [\<lparr>pos = Some ''PREP'', normal_form = w_na\<rparr>,
         \<lparr>pos = Some ''INTJ'', normal_form = w_na\<rparr>]
      else if tok = w_privet then [\<lparr>pos = Some ''NOUN'', normal_form = w_privet\<rparr>]
      else [])"

definition demo_text :: ustring where
  "demo_text =
     [0x41C, 0x438, 0x440, 0x430, 0x20, 0x43D, 0x430, 0x20, 0x43C, 0x438, 0x440, 0x20,
      0x43C, 0x438, 0x440, 0x443]"

definition demo_page :: ustring where
  "demo_page = ustr ''<p>'' @ demo_text @ ustr ''</p>''"

definition w_miru :: ustring where
  "w_miru = [0x43C, 0x438, 0x440, 0x443]"

definition demo_world :: world where
  "demo_world =
     \<lparr>pages_isdir = True,
      pages_glob = [ustr ''pages/2.txt'', ustr ''pages/1.txt''],
      file_text = (\<lambda>p. if p = ustr ''pages/1.txt'' then scenario_page else demo_page),
      tokens_txt = None, lemmas_txt = None, report = None\<rparr>"


text \<open>
  A page without markup: a word, an ampersand and the word again. All of it is
  visible text.
\<close>

definition amp_page :: ustring where
  "amp_page = [0x43C, 0x438, 0x440, 0x26, 0x43C, 0x438, 0x440]"

text \<open>The tokens of the two pages, in the order of the sorted paths.\<close>

definition demo_tokens :: "ustring list" where
  "demo_tokens = [w_privet, w_mir, w_mira, w_na, w_mir, w_miru]"

text \<open>The two files a run over the two pages writes.\<close>

definition demo_tokens_txt :: ustring where
  "demo_tokens_txt =
     [0x43C, 0x438, 0x440, 0x0A,
      0x43C, 0x438, 0x440, 0x430, 0x0A,
      0x43F, 0x440, 0x438, 0x432, 0x435, 0x442, 0x0A]"

definition demo_lemmas_txt :: ustring where
  "demo_lemmas_txt =
     [0x43C, 0x438, 0x440, 0x20, 0x43C, 0x438, 0x440, 0x20, 0x43C, 0x438, 0x440, 0x430, 0x0A,
      0x43F, 0x440, 0x438, 0x432, 0x435, 0x442, 0x20, 0x43F, 0x440, 0x438, 0x432, 0x435, 0x442, 0x0A]"


section \<open>Properties of the word pattern and the tokenizer\<close>

lemma ru_word_char_iff:
  "ru_word_char c \<longleftrightarrow>
     c = 0x401 \<or> (0x410 \<le> c \<and> c \<le> 0x44F) \<or> c = 0x451 \<or> (0x1C80 \<le> c \<and> c \<le> 0x1C86)"
  by (auto simp: ru_word_char_def ru_charset_def lower_cp_def split: if_splits)

lemma ru_word_char_not_digit: "ru_word_char c \<Longrightarrow> \<not> py_isdigit c"
  unfolding ru_word_char_iff by (auto simp: py_isdigit_def digit_ranges_def)

lemma ru_word_char_not_sep: "ru_word_char c \<Longrightarrow> c \<noteq> 0x20 \<and> c \<noteq> 0x0A"
  unfolding ru_word_char_iff by auto

lemma findall_ru_unfold:
  "findall_ru s =
     (if 2 \<le> length (takeWhile ru_word_char s) then [takeWhile ru_word_char s] else [])
     @ findall_ru (drop 1 (dropWhile ru_word_char s))"
proof (cases s)
  case Nil
  then show ?thesis by simp
next
  case (Cons c cs)
  have skip: "findall_ru d = findall_ru (drop 1 d)" if "d = [] \<or> \<not> ru_word_char (hd d)" for d
    using that by (cases d) auto
  show ?thesis
  proof (cases "ru_word_char c")
    case False
    with Cons show ?thesis by simp
  next
    case True
    have d: "dropWhile ru_word_char s = [] \<or> \<not> ru_word_char (hd (dropWhile ru_word_char s))"
      by (metis hd_dropWhile)
    show ?thesis
    proof (cases "2 \<le> length (takeWhile ru_word_char s)")
      case True
      with Cons skip[OF d] show ?thesis by (simp add: Let_def)
    next
      case False
      with Cons \<open>ru_word_char c\<close> have "takeWhile ru_word_char cs = []"
        by (cases "takeWhile ru_word_char cs") auto
      then have cs: "cs = [] \<or> \<not> ru_word_char (hd cs)"
        by (cases cs) (auto split: if_splits)
      then have "dropWhile ru_word_char cs = cs" by (cases cs) auto
      with Cons True False skip[OF cs] show ?thesis by (simp add: Let_def)
    qed
  qed
qed

lemma runs_unfold:
  "runs P cur s =
     (if cur @ takeWhile P s = [] then [] else [cur @ takeWhile P s])
     @ runs P [] (drop 1 (dropWhile P s))"
  by (induction s arbitrary: cur) auto

lemma findall_ru_runs:
  "findall_ru s = filter (\<lambda>r. 2 \<le> length r) (runs ru_word_char [] s)"
proof (induction "length s" arbitrary: s rule: less_induct)
  case less
  show ?case
  proof (cases s)
    case Nil
    then show ?thesis by simp
  next
    case (Cons c cs)
    let ?d = "drop 1 (dropWhile ru_word_char s)"
    have "length ?d < length s"
      using Cons length_dropWhile_le[of ru_word_char s] by simp
    then have IH: "findall_ru ?d = filter (\<lambda>r. 2 \<le> length r) (runs ru_word_char [] ?d)"
      by (rule less)
    have "findall_ru s =
        (if 2 \<le> length (takeWhile ru_word_char s) then [takeWhile ru_word_char s] else [])
        @ filter (\<lambda>r. 2 \<le> length r) (runs ru_word_char [] ?d)"
      using findall_ru_unfold[of s] IH by simp
    also have "\<dots> = filter (\<lambda>r. 2 \<le> length r) (runs ru_word_char [] s)"
      by (subst (2) runs_unfold) auto
    finally show ?thesis .
  qed
qed

lemma runs_sound:
  "r \<in> set (runs P cur s) \<Longrightarrow> list_all P cur \<Longrightarrow>
     \<exists>pre post. maximal_run_at P (cur @ s) pre r post"
proof (induction s arbitrary: cur)
  case Nil
  then have "maximal_run_at P (cur @ []) [] r []"
    by (auto simp: maximal_run_at_def split: if_splits)
  then show ?case by blast
next
  case (Cons c cs)
  show ?case
  proof (cases "P c")
    case True
    with Cons.prems have "r \<in> set (runs P (cur @ [c]) cs)" "list_all P (cur @ [c])" by auto
    from Cons.IH[OF this] show ?thesis by simp
  next
    case False
    with Cons.prems consider "r = cur" "cur \<noteq> []" | "r \<in> set (runs P [] cs)"
      by (auto split: if_splits)
    then show ?thesis
    proof cases
      case 1
      with False Cons.prems have "maximal_run_at P (cur @ c # cs) [] r (c # cs)"
        by (simp add: maximal_run_at_def)
      then show ?thesis by blast
    next
      case 2
      from Cons.IH[OF 2] obtain pre post where "maximal_run_at P cs pre r post" by auto
      with False have "maximal_run_at P (cur @ c # cs) (cur @ c # pre) r post"
        by (auto simp: maximal_run_at_def)
      then show ?thesis by blast
    qed
  qed
qed

lemma runs_complete:
  "maximal_run_at P (cur @ s) pre r post \<Longrightarrow> list_all P cur \<Longrightarrow> r \<in> set (runs P cur s)"
proof (induction s arbitrary: cur pre)
  case Nil
  from Nil.prems have eq: "cur = pre @ r @ post" and r: "r \<noteq> []"
    and pre: "pre = [] \<or> \<not> P (last pre)" and post: "post = [] \<or> \<not> P (hd post)"
    by (auto simp: maximal_run_at_def)
  from Nil.prems(2) eq have "list_all P pre" "list_all P post" by auto
  with pre post have "pre = []" "post = []"
    by (metis last_in_set list_all_iff, metis list.set_sel(1) list_all_iff)
  with eq r show ?case by simp
next
  case (Cons c cs)
  show ?case
  proof (cases "P c")
    case True
    from Cons.prems have "maximal_run_at P ((cur @ [c]) @ cs) pre r post" by simp
    moreover from True Cons.prems have "list_all P (cur @ [c])" by simp
    ultimately have "r \<in> set (runs P (cur @ [c]) cs)" by (rule Cons.IH)
    with True show ?thesis by simp
  next
    case False
    from Cons.prems have eq: "cur @ c # cs = pre @ r @ post" and r: "r \<noteq> []" and Pr: "list_all P r"
      and pre: "pre = [] \<or> \<not> P (last pre)" and post: "post = [] \<or> \<not> P (hd post)"
      by (auto simp: maximal_run_at_def)
    from eq consider us where "cur = pre @ us" "us @ c # cs = r @ post"
      | us where "cur @ us = pre" "c # cs = us @ r @ post" "us \<noteq> []"
      by (auto simp: append_eq_append_conv2) (metis append.right_neutral)+
    then show ?thesis
    proof cases
      case 1
      from 1(1) Cons.prems(2) have Ppre: "list_all P pre" by simp
      with pre have pre_nil: "pre = []" by (metis last_in_set list_all_iff)
      from 1(2) consider vs where "us = r @ vs" "vs @ c # cs = post"
        | vs where "us @ vs = r" "c # cs = vs @ post" "vs \<noteq> []"
        by (auto simp: append_eq_append_conv2) (metis append.right_neutral)+
      then show ?thesis
      proof cases
        case 1
        have "vs = []"
        proof (rule ccontr)
          assume "vs \<noteq> []"
          then have "hd post = hd vs" "hd vs \<in> set vs" using 1(2) by auto
          moreover have "list_all P vs" using 1(1) \<open>cur = pre @ us\<close> Cons.prems(2) by simp
          ultimately show False using post 1(2) by (auto simp: list_all_iff)
        qed
        with 1 pre_nil \<open>cur = pre @ us\<close> have "r = cur" by simp
        with r False show ?thesis by simp
      next
        case 2
        then obtain vs' where "vs = c # vs'" by (cases vs) auto
        with 2(1) Pr False show ?thesis by auto
      qed
    next
      case 2
      from 2(2,3) obtain us' where us: "us = c # us'" "cs = us' @ r @ post" by (cases us) auto
      have "us' = [] \<or> \<not> P (last us')"
        using pre 2(1) us(1) by (cases "us' = []") auto
      with us r Pr post have "maximal_run_at P ([] @ cs) us' r post"
        by (simp add: maximal_run_at_def)
      then have "r \<in> set (runs P [] cs)" by (rule Cons.IH) simp
      with False show ?thesis by simp
    qed
  qed
qed

lemma runs_maximal:
  "r \<in> set (runs P [] s) \<longleftrightarrow> (\<exists>pre post. maximal_run_at P s pre r post)"
  using runs_sound[of r P "[]" s] runs_complete[of P "[]" s _ r] by auto

lemma tokenize_runs:
  "tokenize text =
     filter (\<lambda>r. 2 \<le> length r \<and> length r \<le> 40) (runs ru_word_char [] (py_lower text))"
  by (auto simp: tokenize_def findall_ru_runs intro: filter_cong)

lemma tokenize_chars: "t \<in> set (tokenize text) \<Longrightarrow> list_all ru_word_char t"
proof -
  assume "t \<in> set (tokenize text)"
  then have "t \<in> set (runs ru_word_char [] (py_lower text))"
    by (simp add: tokenize_runs)
  then obtain pre post where "maximal_run_at ru_word_char (py_lower text) pre t post"
    unfolding runs_maximal by blast
  then show ?thesis by (simp add: maximal_run_at_def)
qed

lemma tokenize_length: "t \<in> set (tokenize text) \<Longrightarrow> 2 \<le> length t \<and> length t \<le> 40"
  by (simp add: tokenize_def)

lemma tokenize_no_digit: "t \<in> set (tokenize text) \<Longrightarrow> \<not> any_isdigit t"
  using tokenize_chars[of t "text"] ru_word_char_not_digit
  by (auto simp: any_isdigit_def list_ex_iff list_all_iff)

lemma collect_tokens_eq:
  "collect_tokens parser rd files acc =
     acc @ concat (map (\<lambda>p. tokenize (html_to_text parser (rd p))) files)"
  by (induction files arbitrary: acc) auto

text \<open>
  C2. The claim: every token of the tokenizer has 2 to 40 characters and
  consists solely of the 33 lower-case Russian letters. The bounds hold
  (\<open>tokenize_length\<close>), and the tokens are the maximal runs of pattern letters of
  the lower-cased text that have 2 to 40 characters (\<open>tokenize_runs\<close>,
  \<open>runs_maximal\<close>). But the pattern, compiled with \<open>IGNORECASE\<close>, also matches the
  letters U+1C80..U+1C86, which \<open>lower\<close> leaves as they are: the text of two
  letters U+1C80 gives one token, and that token is not made of the 33 letters,
  against the comment of the source that the pattern takes Russian words only.
\<close>

theorem tokenize_extended_cyrillic:
  "tokenize [0x1C80, 0x1C80] = [[0x1C80, 0x1C80]]
   \<and> \<not> list_all russian_letter [0x1C80, 0x1C80]"
  by (simp add: tokenize_def py_lower_def lower_cp_def ru_word_char_def ru_charset_def
      russian_letter_def)

text \<open>
  C8. No token of the tokenizer contains a character for which \<open>isdigit\<close> holds,
  so the first filter of the loop, \<open>any(ch.isdigit() for ch in tok)\<close>, is false
  for every token of every text, and for every token that the loop over the
  files collects.
\<close>

theorem digit_filter_unreachable:
  "(\<forall>t \<in> set (tokenize text). \<not> any_isdigit t)
   \<and> (\<forall>t \<in> set (collect_tokens parser rd files []). \<not> any_isdigit t)"
  by (auto simp: collect_tokens_eq dest: tokenize_no_digit)

theorem digit_filter_unreachable_witness:
  "[0x43C, 0x438, 0x440] \<in> set (tokenize [0x41C, 0x438, 0x440, 0x20, 0x32, 0x30])
   \<and> \<not> any_isdigit [0x43C, 0x438, 0x440]
   \<and> [0x43C, 0x438, 0x440]
        \<in> set (collect_tokens (\<lambda>h. [Data h]) (\<lambda>p. [0x41C, 0x438, 0x440, 0x20, 0x32, 0x30]) [[0x61]] [])"
proof -
  have tok: "tokenize [0x41C, 0x438, 0x440, 0x20, 0x32, 0x30] = [[0x43C, 0x438, 0x440]]"
    by (simp add: tokenize_def py_lower_def lower_cp_def ru_word_char_def ru_charset_def)
  have page: "html_to_text (\<lambda>h. [Data h]) [0x41C, 0x438, 0x440, 0x20, 0x32, 0x30]
             = [0x41C, 0x438, 0x440, 0x20, 0x32, 0x30]"
    by (simp add: html_to_text_def feed_events_def handle_data_def new_extractor_def
        get_text_def)
  have mem: "[0x43C, 0x438, 0x440] \<in> set (tokenize [0x41C, 0x438, 0x440, 0x20, 0x32, 0x30])"
    by (simp add: tok)
  have col: "[0x43C, 0x438, 0x440]
        \<in> set (collect_tokens (\<lambda>h. [Data h]) (\<lambda>p. [0x41C, 0x438, 0x440, 0x20, 0x32, 0x30]) [[0x61]] [])"
    by (simp add: page tok)
  from mem col digit_filter_unreachable[of "[0x41C, 0x438, 0x440, 0x20, 0x32, 0x30]"]
  show ?thesis by blast
qed


section \<open>Properties of the text extractor\<close>

lemma feed_events_Nil: "feed_events [] x = x"
  by (simp add: feed_events_def)

lemma feed_events_Cons: "feed_events (e # evs) x = feed_events evs (deliver e x)"
  by (simp add: feed_events_def)

lemma skip_deliver_nonneg: "0 \<le> skip x \<Longrightarrow> 0 \<le> skip (deliver e x)"
  by (cases e) (auto simp: handle_starttag_def handle_endtag_def handle_data_def Let_def)

lemma skip_feed_nonneg: "0 \<le> skip x \<Longrightarrow> 0 \<le> skip (feed_events evs x)"
  by (induction evs arbitrary: x)
     (auto simp: feed_events_Nil feed_events_Cons skip_deliver_nonneg)

lemma handle_endtag_at_zero: "skip x = 0 \<Longrightarrow> handle_endtag tag x = x"
  by (simp add: handle_endtag_def)

text \<open>
  The parts collected by the object are the visible fragments: the counter of
  the object, an integer that is never negative, is the depth.
\<close>

lemma feed_events_visible:
  "0 \<le> skip x \<Longrightarrow> parts (feed_events evs x) = parts x @ visible (nat (skip x)) evs"
proof (induction evs arbitrary: x)
  case Nil
  then show ?case by (simp add: feed_events_Nil)
next
  case (Cons e evs)
  from Cons.prems have nn: "0 \<le> skip (deliver e x)" by (rule skip_deliver_nonneg)
  note IH = Cons.IH[OF nn]
  show ?case
  proof (cases e)
    case (StartTag tag)
    with Cons.prems IH show ?thesis
      by (auto simp: feed_events_Cons handle_starttag_def Let_def nat_add_distrib)
  next
    case (EndTag tag)
    with Cons.prems IH show ?thesis
      by (auto simp: feed_events_Cons handle_endtag_def Let_def nat_diff_distrib)
  next
    case (Data d)
    with Cons.prems IH show ?thesis
      by (auto simp: feed_events_Cons handle_data_def)
  qed
qed

lemma html_to_text_visible:
  "html_to_text parser html = join [0x20] (visible 0 (parser html))"
  using feed_events_visible[of new_extractor "parser html"]
  by (simp add: html_to_text_def get_text_def new_extractor_def)

lemma scenario_events:
  "goahead None scenario_page =
     Some [StartTag (ustr ''script''),
           Data [0x43C, 0x443, 0x441, 0x43E, 0x440, 0x31, 0x32, 0x33],
           EndTag (ustr ''script''),
           StartTag (ustr ''p''),
           Data [0x41F, 0x440, 0x438, 0x432, 0x435, 0x442, 0x20, 0x43C, 0x438, 0x440],
           EndTag (ustr ''p'')]"
  by (simp add: scenario_page_def goahead.simps parse_tag_def is_ascii_alpha_def
      is_ascii_alnum_def py_lower_def lower_cp_def ustr_def cdata_content_elements_def)

lemma scenario_text:
  "html_to_text_plain scenario_page =
     Some [0x41F, 0x440, 0x438, 0x432, 0x435, 0x442, 0x20, 0x43C, 0x438, 0x440]"
  unfolding html_to_text_plain_def scenario_events
  by (simp add: get_text_def feed_events_def new_extractor_def handle_starttag_def
      handle_endtag_def handle_data_def skip_tags_def ustr_def py_lower_def lower_cp_def)

lemma scenario_tokens:
  "tokenize [0x41F, 0x440, 0x438, 0x432, 0x435, 0x442, 0x20, 0x43C, 0x438, 0x440] =
     [[0x43F, 0x440, 0x438, 0x432, 0x435, 0x442], [0x43C, 0x438, 0x440]]"
  by (simp add: tokenize_def py_lower_def lower_cp_def ru_word_char_def ru_charset_def)

text \<open>
  C5. The claim: for every markup the extractor returns the visible text, its
  fragments joined by one space. The code calls \<open>feed\<close> and never \<open>close\<close>, and
  \<open>feed\<close> keeps back a last piece of text that holds an ampersand followed by
  neither white space nor a semicolon. The page made of a word, an ampersand and
  the word again has no tag at all, so all of it is visible text, and its
  characters hold the word twice; yet the parser makes no call for it, the
  extractor returns the empty text, and the page gives no token.
\<close>

theorem extractor_drops_text_after_ampersand:
  "0x3C \<notin> set amp_page
   \<and> tokenize amp_page = [w_mir, w_mir]
   \<and> goahead None amp_page = Some []
   \<and> html_to_text_plain amp_page = Some []
   \<and> map_option tokenize (html_to_text_plain amp_page) = Some []"
proof -
  have p: "amp_pending amp_page"
    by (simp add: amp_pending_def amp_page_def space_or_semicolon_def space_ranges_def)
  have g: "goahead None amp_page = Some []"
    using p by (subst goahead.simps) (simp add: amp_page_def)
  have t: "tokenize amp_page = [w_mir, w_mir]"
    by (simp add: amp_page_def tokenize_def py_lower_def lower_cp_def ru_word_char_def
        ru_charset_def w_mir_def Let_def)
  have e: "html_to_text_plain amp_page = Some []"
    by (simp add: html_to_text_plain_def g get_text_def feed_events_def new_extractor_def)
  have "tokenize [] = []"
    by (simp add: tokenize_def py_lower_def)
  with g t e show ?thesis by (simp add: amp_page_def)
qed

text \<open>
  C9. The counter of the extractor is never negative, whatever the calls. An
  end tag that arrives while the counter is 0 leaves the object as it is, so a
  stray end tag at the start of a page changes nothing of what follows: the
  later text is collected and a later skipped element is still left out.
\<close>

theorem skip_never_negative:
  "0 \<le> skip (feed_events evs new_extractor)
   \<and> (skip x = 0 \<longrightarrow> handle_endtag tag x = x)
   \<and> feed_events (EndTag tag # evs) new_extractor = feed_events evs new_extractor"
  by (simp add: skip_feed_nonneg handle_endtag_at_zero feed_events_Cons new_extractor_def)

theorem skip_never_negative_witness:
  "skip new_extractor = 0
   \<and> handle_endtag (ustr ''script'') new_extractor = new_extractor
   \<and> 0 \<le> skip (feed_events
        [EndTag (ustr ''script''), Data [0x61], StartTag (ustr ''style''), Data [0x62],
         EndTag (ustr ''style''), Data [0x63]] new_extractor)
   \<and> parts (feed_events
        [EndTag (ustr ''script''), Data [0x61], StartTag (ustr ''style''), Data [0x62],
         EndTag (ustr ''style''), Data [0x63]] new_extractor) = [[0x61], [0x63]]"
proof -
  have zero: "skip new_extractor = 0" by (simp add: new_extractor_def)
  have run: "parts (feed_events
        [Data [0x61], StartTag (ustr ''style''), Data [0x62],
         EndTag (ustr ''style''), Data [0x63]] new_extractor) = [[0x61], [0x63]]"
    by (simp add: feed_events_def new_extractor_def handle_starttag_def handle_endtag_def
        handle_data_def skip_tags_def ustr_def py_lower_def lower_cp_def)
  from zero run
    skip_never_negative[of "[Data [0x61], StartTag (ustr ''style''), Data [0x62],
         EndTag (ustr ''style''), Data [0x63]]" new_extractor "ustr ''script''"]
    skip_never_negative[of "[EndTag (ustr ''script''), Data [0x61], StartTag (ustr ''style''),
         Data [0x62], EndTag (ustr ''style''), Data [0x63]]" new_extractor "ustr ''script''"]
  show ?thesis by simp
qed


section \<open>Properties of the filter and of the grouping\<close>

lemma lemma_check_iff:
  "(\<not> fullmatch_ru l \<or> \<not> (2 \<le> length l \<and> length l \<le> 40)) \<longleftrightarrow> \<not> pattern_word l"
  by (auto simp: fullmatch_ru_def pattern_word_def)

lemma bad_pos_iff:
  "(case p of None \<Rightarrow> False | Some s \<Rightarrow> s \<in> bad_pos)
     \<longleftrightarrow> p \<in> {Some ''PREP'', Some ''CONJ'', Some ''PRCL'', Some ''INTJ''}"
  by (cases p) (auto simp: bad_pos_def)

lemma agg_step_add:
  "(let m = lemma_to_tokens st;
        m1 = (if Mapping.lookup m lem = None then Mapping.update lem {} m else m)
    in (case Mapping.lookup m1 lem of
          None \<Rightarrow> Inl (KeyError lem)
        | Some s \<Rightarrow>
            Inr \<lparr>tokens_set = insert tok (tokens_set st),
                 lemma_to_tokens = Mapping.update lem (insert tok s) m1\<rparr>))
   = Inr (add_token tok lem st)"
  by (cases "Mapping.lookup (lemma_to_tokens st) lem")
     (auto simp: add_token_def tokens_under_def Let_def intro!: mapping_eqI
        simp: Mapping.lookup_update')

lemmas agg_step_add_unfolded = agg_step_add[unfolded Let_def]

lemma agg_step_eq:
  "agg_step morph tok st =
     Inr (if accepted morph tok then add_token tok (lemma_of morph tok) st else st)"
proof (cases "morph tok")
  case Nil
  then show ?thesis
    by (simp add: agg_step_def accepted_def top_parse_def)
next
  case (Cons p ps)
  let ?functional = "{Some ''PREP'', Some ''CONJ'', Some ''PRCL'', Some ''INTJ''}"
  consider (digit) "any_isdigit tok"
    | (pos) "\<not> any_isdigit tok" "pos p \<in> ?functional"
    | (lem) "\<not> any_isdigit tok" "pos p \<notin> ?functional" "\<not> pattern_word (normal_form p)"
    | (ok) "\<not> any_isdigit tok" "pos p \<notin> ?functional" "pattern_word (normal_form p)"
    by blast
  then show ?thesis
  proof cases
    case digit
    then show ?thesis by (simp add: agg_step_def accepted_def any_isdigit_def)
  next
    case pos
    then have bad: "(case pos p of None \<Rightarrow> False | Some s \<Rightarrow> s \<in> bad_pos)"
      by (simp add: bad_pos_iff)
    from pos have "\<not> accepted morph tok"
      by (simp add: accepted_def top_parse_def Cons)
    with pos(1) bad show ?thesis by (simp add: agg_step_def Cons)
  next
    case lem
    then have good: "\<not> (case pos p of None \<Rightarrow> False | Some s \<Rightarrow> s \<in> bad_pos)"
      by (simp add: bad_pos_iff)
    from lem(3) have rej: "\<not> fullmatch_ru (normal_form p)
        \<or> \<not> (2 \<le> length (normal_form p) \<and> length (normal_form p) \<le> 40)"
      by (auto simp: pattern_word_def fullmatch_ru_def)
    from lem have "\<not> accepted morph tok"
      by (simp add: accepted_def top_parse_def Cons)
    with lem(1) good rej show ?thesis by (auto simp: agg_step_def Cons)
  next
    case ok
    then have good: "\<not> (case pos p of None \<Rightarrow> False | Some s \<Rightarrow> s \<in> bad_pos)"
      by (simp add: bad_pos_iff)
    from ok(3) have full: "fullmatch_ru (normal_form p)"
      and len: "2 \<le> length (normal_form p)" "length (normal_form p) \<le> 40"
      by (auto simp: pattern_word_def fullmatch_ru_def)
    from ok have acc: "accepted morph tok"
      by (simp add: accepted_def top_parse_def Cons any_isdigit_def)
    have l: "lemma_of morph tok = normal_form p"
      by (simp add: lemma_of_def top_parse_def Cons)
    from ok(1) good full len acc l show ?thesis
      by (simp add: agg_step_def Cons Let_def agg_step_add_unfolded)
  qed
qed

lemma tokens_under_add:
  "tokens_under (lemma_to_tokens (add_token tok lem st)) l =
     (if l = lem then insert tok (tokens_under (lemma_to_tokens st) lem)
      else tokens_under (lemma_to_tokens st) l)"
  by (simp add: add_token_def tokens_under_def Mapping.lookup_update')

lemma keys_add:
  "Mapping.keys (lemma_to_tokens (add_token tok lem st)) = insert lem (Mapping.keys (lemma_to_tokens st))"
  by (simp add: add_token_def)

lemma tokens_set_add: "tokens_set (add_token tok lem st) = insert tok (tokens_set st)"
  by (simp add: add_token_def)

lemma aggregate_char:
  "\<exists>st'. aggregate morph toks st = Inr st'
     \<and> tokens_set st' = tokens_set st \<union> token_set_of morph toks
     \<and> Mapping.keys (lemma_to_tokens st') =
         Mapping.keys (lemma_to_tokens st) \<union> lemma_of morph ` token_set_of morph toks
     \<and> (\<forall>l. tokens_under (lemma_to_tokens st') l =
            tokens_under (lemma_to_tokens st) l
            \<union> {t \<in> token_set_of morph toks. lemma_of morph t = l})"
proof (induction toks arbitrary: st)
  case Nil
  then show ?case by (simp add: token_set_of_def)
next
  case (Cons t ts)
  let ?st1 = "if accepted morph t then add_token t (lemma_of morph t) st else st"
  from Cons.IH[of ?st1] obtain st' where
    run: "aggregate morph ts ?st1 = Inr st'"
    and ts: "tokens_set st' = tokens_set ?st1 \<union> token_set_of morph ts"
    and ks: "Mapping.keys (lemma_to_tokens st') =
         Mapping.keys (lemma_to_tokens ?st1) \<union> lemma_of morph ` token_set_of morph ts"
    and us: "\<And>l. tokens_under (lemma_to_tokens st') l =
            tokens_under (lemma_to_tokens ?st1) l
            \<union> {t \<in> token_set_of morph ts. lemma_of morph t = l}"
    by blast
  have "aggregate morph (t # ts) st = Inr st'"
    using run by (simp add: agg_step_eq)
  moreover have "tokens_set st' = tokens_set st \<union> token_set_of morph (t # ts)"
    using ts by (auto simp: token_set_of_def tokens_set_add)
  moreover have "Mapping.keys (lemma_to_tokens st') =
         Mapping.keys (lemma_to_tokens st) \<union> lemma_of morph ` token_set_of morph (t # ts)"
    using ks by (auto simp: token_set_of_def keys_add)
  moreover have "tokens_under (lemma_to_tokens st') l =
            tokens_under (lemma_to_tokens st) l
            \<union> {u \<in> token_set_of morph (t # ts). lemma_of morph u = l}" for l
    using us[of l] by (auto simp: token_set_of_def tokens_under_add)
  ultimately show ?case by blast
qed

lemma aggregate_empty:
  "\<exists>st. aggregate morph toks empty_agg = Inr st
     \<and> tokens_set st = token_set_of morph toks
     \<and> Mapping.keys (lemma_to_tokens st) = lemma_of morph ` token_set_of morph toks
     \<and> (\<forall>l. tokens_under (lemma_to_tokens st) l =
            {t \<in> token_set_of morph toks. lemma_of morph t = l})"
  using aggregate_char[of morph toks empty_agg]
  by (auto simp: empty_agg_def tokens_under_def)

lemma token_set_of_eq: "token_set_of morph toks = {t \<in> set toks. accepted morph t}"
  by (auto simp: token_set_of_def)

lemma lookup_by_keys:
  "Mapping.lookup m l = (if l \<in> Mapping.keys m then Some (tokens_under m l) else None)"
  by (cases "Mapping.lookup m l") (auto simp: tokens_under_def keys_is_none_rep Option.is_none_def)

lemma mapping_eq_by_keys:
  "Mapping.keys m = Mapping.keys m' \<Longrightarrow> (\<And>l. tokens_under m l = tokens_under m' l) \<Longrightarrow> m = m'"
  by (rule mapping_eqI) (simp add: lookup_by_keys)

lemma aggregate_lookup:
  assumes "aggregate morph toks empty_agg = Inr st"
  shows "tokens_set st = token_set_of morph toks"
    and "Mapping.keys (lemma_to_tokens st) = lemma_of morph ` token_set_of morph toks"
    and "tokens_under (lemma_to_tokens st) l = {t \<in> token_set_of morph toks. lemma_of morph t = l}"
proof -
  from aggregate_empty[of morph toks] assms
  show "tokens_set st = token_set_of morph toks"
    and "Mapping.keys (lemma_to_tokens st) = lemma_of morph ` token_set_of morph toks"
    and "tokens_under (lemma_to_tokens st) l = {t \<in> token_set_of morph toks. lemma_of morph t = l}"
    by auto
qed

lemma aggregate_total: "\<exists>st. aggregate morph toks empty_agg = Inr st"
  using aggregate_empty[of morph toks] by blast

lemma aggregate_set_cong:
  assumes "set toks = set toks'"
  shows "aggregate morph toks empty_agg = aggregate morph toks' empty_agg"
proof -
  obtain st where st: "aggregate morph toks empty_agg = Inr st" using aggregate_total by blast
  obtain st' where st': "aggregate morph toks' empty_agg = Inr st'" using aggregate_total by blast
  from assms have same: "token_set_of morph toks = token_set_of morph toks'"
    by (simp add: token_set_of_eq)
  have "tokens_set st = tokens_set st'"
    using aggregate_lookup(1)[OF st] aggregate_lookup(1)[OF st'] same by simp
  moreover have "lemma_to_tokens st = lemma_to_tokens st'"
  proof (rule mapping_eq_by_keys)
    show "Mapping.keys (lemma_to_tokens st) = Mapping.keys (lemma_to_tokens st')"
      using aggregate_lookup(2)[OF st] aggregate_lookup(2)[OF st'] same by simp
    show "tokens_under (lemma_to_tokens st) l = tokens_under (lemma_to_tokens st') l" for l
      using aggregate_lookup(3)[OF st] aggregate_lookup(3)[OF st'] same by simp
  qed
  ultimately have "st = st'" by simp
  with st st' show ?thesis by simp
qed

lemma write_lemmas_keys:
  "set ls \<subseteq> Mapping.keys m \<Longrightarrow>
     write_lemmas m ls out =
       (out @ concat (map (\<lambda>l. lemma_line l (sorted_list_of_set (tokens_under m l))) ls), None)"
proof (induction ls arbitrary: out)
  case Nil
  then show ?case by simp
next
  case (Cons l ls)
  from Cons.prems have "l \<in> Mapping.keys m" by simp
  then have "Mapping.lookup m l = Some (tokens_under m l)"
    by (simp add: lookup_by_keys[of m l])
  with Cons show ?case by simp
qed

lemma finite_keys_aggregate:
  "aggregate morph toks empty_agg = Inr st \<Longrightarrow> finite (Mapping.keys (lemma_to_tokens st))"
  by (simp add: aggregate_lookup(2) token_set_of_def)

lemma write_lemmas_lines:
  "finite (Mapping.keys m) \<Longrightarrow>
     write_lemmas m (sorted_list_of_set (Mapping.keys m)) [] =
       (concat (map (\<lambda>(l, ts). lemma_line l ts) (lemma_lines m)), None)"
  by (simp add: write_lemmas_keys lemma_lines_def comp_def)

lemma process_ok:
  assumes "aggregate morph (collect_tokens parser (file_text w) files []) empty_agg = Inr st"
  shows "process parser morph files w =
     (Inr (),
      w\<lparr>tokens_txt := Some (write_tokens (sorted_list_of_set (tokens_set st))),
        lemmas_txt := Some (concat (map (\<lambda>(l, ts). lemma_line l ts)
                                      (lemma_lines (lemma_to_tokens st)))),
        report := Some (card (tokens_set st), card (Mapping.keys (lemma_to_tokens st)))\<rparr>)"
proof -
  have fin: "finite (tokens_set st)"
    using aggregate_lookup(1)[OF assms] by (simp add: token_set_of_def)
  show ?thesis
    using assms fin
    by (simp add: process_def Let_def write_lemmas_lines[OF finite_keys_aggregate[OF assms]])
qed

lemma set_collect_tokens:
  "set (collect_tokens parser rd files []) =
     (\<Union>p \<in> set files. set (tokenize (html_to_text parser (rd p))))"
  by (simp add: collect_tokens_eq)

lemma process_perm:
  assumes "set files = set files'"
  shows "process parser morph files w = process parser morph files' w"
proof -
  have "set (collect_tokens parser (file_text w) files [])
        = set (collect_tokens parser (file_text w) files' [])"
    using assms by (simp add: set_collect_tokens)
  then have "aggregate morph (collect_tokens parser (file_text w) files []) empty_agg
           = aggregate morph (collect_tokens parser (file_text w) files' []) empty_agg"
    by (rule aggregate_set_cong)
  then show ?thesis by (simp add: process_def)
qed

lemma sort_eq_Nil: "sort xs = [] \<longleftrightarrow> xs = []"
  by (metis length_sort length_0_conv)

lemma main_ok:
  assumes "pages_isdir w" "pages_glob w \<noteq> []"
  shows "main parser morph w = process parser morph (sort (pages_glob w)) w"
  using assms by (simp add: main_def Let_def sort_eq_Nil)

lemma sorted_list_of_set_strict: "sorted_wrt (<) xs \<Longrightarrow> sorted_list_of_set (set xs) = xs"
  by (simp add: strict_sorted_iff sorted_list_of_set.idem_if_sorted_distinct)

lemma finite_token_set_of: "finite (token_set_of morph toks)"
  by (simp add: token_set_of_def)

lemma accepted_lemma_word: "accepted morph t \<Longrightarrow> pattern_word (lemma_of morph t)"
  by (auto simp: accepted_def lemma_of_def split: option.splits)

lemma accepted_top_parse: "accepted morph t \<Longrightarrow> top_parse morph t \<noteq> None"
  by (auto simp: accepted_def split: option.splits)

lemma filters_chain:
  "agg_step morph tok st =
     (if \<exists>c \<in> set tok. py_isdigit c then Inr st
      else if morph tok = [] then Inr st
      else if pos (hd (morph tok)) \<in> {Some ''PREP'', Some ''CONJ'', Some ''PRCL'', Some ''INTJ''}
      then Inr st
      else if \<not> pattern_word (normal_form (hd (morph tok))) then Inr st
      else Inr (add_token tok (normal_form (hd (morph tok))) st))"
  by (cases "morph tok")
     (auto simp: agg_step_eq accepted_def top_parse_def lemma_of_def list_ex_iff)

lemma process_pages_glob:
  "process parser morph files (w\<lparr>pages_glob := g\<rparr>) =
     (fst (process parser morph files w), (snd (process parser morph files w))\<lparr>pages_glob := g\<rparr>)"
  by (simp add: process_def Let_def split: sum.splits option.splits)

lemma collected_chars:
  "t \<in> set (collect_tokens parser rd files []) \<Longrightarrow> list_all ru_word_char t"
  by (auto simp: collect_tokens_eq dest: tokenize_chars)

lemma no_sep: "list_all ru_word_char t \<Longrightarrow> 0x20 \<notin> set t \<and> 0x0A \<notin> set t"
  using ru_word_char_not_sep by (auto simp: list_all_iff)


section \<open>Reading the output files back\<close>

lemma read_lines_step:
  "0x0A \<notin> set t \<Longrightarrow> read_lines cur (t @ 0x0A # rest) = (cur @ t) # read_lines [] rest"
  by (induction t arbitrary: cur) auto

lemma read_lines_concat:
  "\<forall>t \<in> set ts. 0x0A \<notin> set t \<Longrightarrow> read_lines [] (concat (map (\<lambda>t. t @ [0x0A]) ts)) = ts"
  by (induction ts) (auto simp: read_lines_step)

lemma fields_step:
  "0x20 \<notin> set t \<Longrightarrow> line_fields cur (t @ 0x20 # rest) = (cur @ t) # line_fields [] rest"
  by (induction t arbitrary: cur) auto

lemma fields_last: "0x20 \<notin> set t \<Longrightarrow> line_fields cur t = [cur @ t]"
  by (induction t arbitrary: cur) auto

lemma fields_join:
  "xs \<noteq> [] \<Longrightarrow> \<forall>x \<in> set xs. 0x20 \<notin> set x \<Longrightarrow> line_fields [] (join [0x20] xs) = xs"
proof (induction "[0x20::nat]" xs rule: join.induct)
  case 1
  then show ?case by simp
next
  case (2 p)
  then show ?case by (simp add: fields_last)
next
  case (3 p q ps)
  then show ?case by (simp add: fields_step)
qed

lemma join_no_newline:
  "\<forall>x \<in> set xs. 0x0A \<notin> set x \<Longrightarrow> 0x0A \<notin> set (join [0x20] xs)"
  by (induction "[0x20::nat]" xs rule: join.induct) auto

lemma lemma_line_join:
  "toks \<noteq> [] \<Longrightarrow> lemma_line l toks = join [0x20] (l # toks) @ [0x0A]"
  by (cases toks) (simp_all add: lemma_line_def)

lemma main_success:
  "main parser morph w = (Inr (), w') \<Longrightarrow> pages_isdir w \<and> pages_glob w \<noteq> []"
  by (auto simp: main_def Let_def split: if_splits)

lemma collected_length:
  "t \<in> set (collect_tokens parser rd files []) \<Longrightarrow> 2 \<le> length t"
  by (auto simp: collect_tokens_eq dest: tokenize_length)


section \<open>The scripted corpus, evaluated\<close>

lemma demo_page_tokens:
  "tokenize (html_to_text plain_parser demo_page) = [w_mira, w_na, w_mir, w_miru]"
proof -
  have "goahead None demo_page =
      Some [StartTag (ustr ''p''), Data demo_text, EndTag (ustr ''p'')]"
    by (simp add: demo_page_def demo_text_def goahead.simps parse_tag_def
        is_ascii_alpha_def is_ascii_alnum_def py_lower_def lower_cp_def ustr_def
        cdata_content_elements_def)
  then have "html_to_text plain_parser demo_page = demo_text"
    by (simp add: html_to_text_def plain_parser_def get_text_def feed_events_def
        new_extractor_def handle_starttag_def handle_endtag_def handle_data_def
        skip_tags_def ustr_def py_lower_def lower_cp_def demo_text_def)
  then show ?thesis
    by (simp add: demo_text_def tokenize_def py_lower_def lower_cp_def ru_word_char_def
        ru_charset_def w_mir_def w_mira_def w_na_def w_miru_def)
qed

lemma scenario_page_tokens:
  "tokenize (html_to_text plain_parser scenario_page) = [w_privet, w_mir]"
proof -
  have "html_to_text plain_parser scenario_page = [0x41F, 0x440, 0x438, 0x432, 0x435, 0x442, 0x20, 0x43C, 0x438, 0x440]"
    using scenario_text by (simp add: html_to_text_def plain_parser_def html_to_text_plain_def scenario_events)
  then show ?thesis by (simp add: scenario_tokens w_privet_def w_mir_def)
qed

lemma demo_sorted_files: "sort (pages_glob demo_world) = [ustr ''pages/1.txt'', ustr ''pages/2.txt'']"
  by (simp add: demo_world_def ustr_def)

lemma demo_all_tokens:
  "collect_tokens plain_parser (file_text demo_world) (sort (pages_glob demo_world)) []
   = [w_privet, w_mir, w_mira, w_na, w_mir, w_miru]"
  unfolding demo_sorted_files
  by (simp add: demo_world_def scenario_page_tokens demo_page_tokens) (simp add: ustr_def)

lemma not_digit_cyr: "0x401 \<le> c \<and> c \<le> 0x451 \<Longrightarrow> \<not> py_isdigit c"
  by (auto simp: py_isdigit_def digit_ranges_def)

lemma demo_accepted:
  "accepted demo_morph w_mir" "accepted demo_morph w_mira" "accepted demo_morph w_privet"
  "\<not> accepted demo_morph w_na" "\<not> accepted demo_morph w_miru"
  by (simp_all add: accepted_def top_parse_def demo_morph_def w_mir_def w_mira_def w_na_def
      w_privet_def w_miru_def not_digit_cyr pattern_word_def ru_word_char_def ru_charset_def
      lower_cp_def)

lemma demo_lemma_of:
  "lemma_of demo_morph w_mir = w_mir" "lemma_of demo_morph w_mira = w_mir" "lemma_of demo_morph w_privet = w_privet"
  by (simp_all add: lemma_of_def top_parse_def demo_morph_def w_mir_def w_mira_def w_na_def w_privet_def)

lemma demo_order: "w_mir < w_mira" "w_mira < w_privet" "w_mir < w_privet" "w_mir \<noteq> w_mira" "w_mir \<noteq> w_privet" "w_mira \<noteq> w_privet"
  by (simp_all add: w_mir_def w_mira_def w_privet_def)

lemma demo_token_set:
  "token_set_of demo_morph [w_privet, w_mir, w_mira, w_na, w_mir, w_miru]
     = {w_mir, w_mira, w_privet}"
  by (auto simp: token_set_of_def demo_accepted)

lemma demo_result:
  assumes "aggregate demo_morph demo_tokens empty_agg = Inr st"
  shows "tokens_set st = {w_mir, w_mira, w_privet}"
    and "Mapping.keys (lemma_to_tokens st) = {w_mir, w_privet}"
    and "tokens_under (lemma_to_tokens st) w_mir = {w_mir, w_mira}"
    and "tokens_under (lemma_to_tokens st) w_privet = {w_privet}"
proof -
  have ts: "token_set_of demo_morph demo_tokens = {w_mir, w_mira, w_privet}"
    unfolding demo_tokens_def by (rule demo_token_set)
  show "tokens_set st = {w_mir, w_mira, w_privet}"
    using aggregate_lookup(1)[OF assms] ts by simp
  show "Mapping.keys (lemma_to_tokens st) = {w_mir, w_privet}"
    using aggregate_lookup(2)[OF assms] ts by (auto simp: demo_lemma_of)
  show "tokens_under (lemma_to_tokens st) w_mir = {w_mir, w_mira}"
    using aggregate_lookup(3)[OF assms, of w_mir] ts demo_order by (auto simp: demo_lemma_of)
  show "tokens_under (lemma_to_tokens st) w_privet = {w_privet}"
    using aggregate_lookup(3)[OF assms, of w_privet] ts demo_order by (auto simp: demo_lemma_of)
qed

lemma demo_lines:
  assumes "aggregate demo_morph demo_tokens empty_agg = Inr st"
  shows "sorted_list_of_set (tokens_set st) = [w_mir, w_mira, w_privet]"
    and "lemma_lines (lemma_to_tokens st) = [(w_mir, [w_mir, w_mira]), (w_privet, [w_privet])]"
proof -
  have s3: "sorted_list_of_set {w_mir, w_mira, w_privet} = [w_mir, w_mira, w_privet]"
    using sorted_list_of_set_strict[of "[w_mir, w_mira, w_privet]"] demo_order by simp
  have s2: "sorted_list_of_set {w_mir, w_privet} = [w_mir, w_privet]"
    using sorted_list_of_set_strict[of "[w_mir, w_privet]"] demo_order by simp
  have s2': "sorted_list_of_set {w_mir, w_mira} = [w_mir, w_mira]"
    using sorted_list_of_set_strict[of "[w_mir, w_mira]"] demo_order by simp
  show "sorted_list_of_set (tokens_set st) = [w_mir, w_mira, w_privet]"
    by (simp add: demo_result(1)[OF assms] s3)
  show "lemma_lines (lemma_to_tokens st) = [(w_mir, [w_mir, w_mira]), (w_privet, [w_privet])]"
    by (simp add: lemma_lines_def demo_result[OF assms] s2 s2')
qed

lemma demo_na: "w_mir \<noteq> w_na" "w_mira \<noteq> w_na" "w_privet \<noteq> w_na"
  by (simp_all add: w_mir_def w_mira_def w_privet_def w_na_def)

lemma demo_collected:
  "collect_tokens plain_parser (file_text demo_world) (sort (pages_glob demo_world)) [] = demo_tokens"
  by (simp add: demo_all_tokens demo_tokens_def)

lemma demo_main:
  "main plain_parser demo_morph demo_world =
     (Inr (), demo_world\<lparr>tokens_txt := Some demo_tokens_txt,
                          lemmas_txt := Some demo_lemmas_txt,
                          report := Some (3, 2)\<rparr>)"
proof -
  obtain st where st: "aggregate demo_morph demo_tokens empty_agg = Inr st"
    using aggregate_total by blast
  have setup_ok: "pages_isdir demo_world" "pages_glob demo_world \<noteq> []"
    by (simp_all add: demo_world_def)
  have c3: "card {w_mir, w_mira, w_privet} = 3" and c2: "card {w_mir, w_privet} = 2"
    using demo_order by simp_all
  have t: "write_tokens [w_mir, w_mira, w_privet] = demo_tokens_txt"
    by (simp add: write_tokens_def demo_tokens_txt_def w_mir_def w_mira_def w_privet_def)
  have l: "concat (map (\<lambda>(l, ts). lemma_line l ts)
              [(w_mir, [w_mir, w_mira]), (w_privet, [w_privet])]) = demo_lemmas_txt"
    by (simp add: lemma_line_def demo_lemmas_txt_def w_mir_def w_mira_def w_privet_def)
  from st have "aggregate demo_morph
      (collect_tokens plain_parser (file_text demo_world) (sort (pages_glob demo_world)) [])
      empty_agg = Inr st"
    by (simp add: demo_collected)
  from process_ok[OF this, unfolded demo_lines[OF st] t l] show ?thesis
    by (simp add: main_ok[OF setup_ok] demo_result[OF st] c3 c2)
qed


section \<open>The claims about the filter, the grouping and the run\<close>


text \<open>
  C3. After the loop TokenSet is a finite set, so its sorted listing has no
  duplicate and loses nothing; the same holds of every set of LemmaIndex; every
  token of such a set is in TokenSet; and a token filed under a lemma has a
  top-ranked parse whose normal form is that lemma, so no token is filed under
  two lemmas.
\<close>

theorem aggregate_invariants:
  "\<exists>st. aggregate morph toks empty_agg = Inr st
     \<and> finite (tokens_set st)
     \<and> distinct (sorted_list_of_set (tokens_set st))
     \<and> set (sorted_list_of_set (tokens_set st)) = tokens_set st
     \<and> (\<forall>l s. Mapping.lookup (lemma_to_tokens st) l = Some s \<longrightarrow>
            finite s \<and> distinct (sorted_list_of_set s) \<and> set (sorted_list_of_set s) = s
            \<and> s \<subseteq> tokens_set st
            \<and> (\<forall>t \<in> s. top_parse morph t \<noteq> None \<and> lemma_of morph t = l))
     \<and> (\<forall>l l' s s'. Mapping.lookup (lemma_to_tokens st) l = Some s
            \<and> Mapping.lookup (lemma_to_tokens st) l' = Some s' \<and> s \<inter> s' \<noteq> {} \<longrightarrow> l = l')"
proof -
  obtain st where st: "aggregate morph toks empty_agg = Inr st"
    using aggregate_total by blast
  note ts = aggregate_lookup(1)[OF st]
  have fin: "finite (tokens_set st)" by (simp add: ts finite_token_set_of)
  have under: "s = {t \<in> token_set_of morph toks. lemma_of morph t = l}"
    if "Mapping.lookup (lemma_to_tokens st) l = Some s" for l s
    using that aggregate_lookup(3)[OF st, of l] by (simp add: tokens_under_def)
  have each: "finite s \<and> distinct (sorted_list_of_set s) \<and> set (sorted_list_of_set s) = s
            \<and> s \<subseteq> tokens_set st
            \<and> (\<forall>t \<in> s. top_parse morph t \<noteq> None \<and> lemma_of morph t = l)"
    if "Mapping.lookup (lemma_to_tokens st) l = Some s" for l s
  proof -
    from under[OF that] have s: "s = {t \<in> token_set_of morph toks. lemma_of morph t = l}" .
    then have "finite s" using finite_token_set_of[of morph toks] by simp
    moreover from s have "s \<subseteq> tokens_set st" by (auto simp: ts)
    moreover from s have "\<forall>t \<in> s. top_parse morph t \<noteq> None \<and> lemma_of morph t = l"
      by (auto simp: token_set_of_eq dest: accepted_top_parse)
    ultimately show ?thesis by simp
  qed
  have one: "l = l'"
    if "Mapping.lookup (lemma_to_tokens st) l = Some s"
      "Mapping.lookup (lemma_to_tokens st) l' = Some s'" "s \<inter> s' \<noteq> {}" for l l' s s'
    using under[OF that(1)] under[OF that(2)] that(3) by auto
  have each': "\<forall>l s. Mapping.lookup (lemma_to_tokens st) l = Some s \<longrightarrow>
            finite s \<and> distinct (sorted_list_of_set s) \<and> set (sorted_list_of_set s) = s
            \<and> s \<subseteq> tokens_set st
            \<and> (\<forall>t \<in> s. top_parse morph t \<noteq> None \<and> lemma_of morph t = l)"
    using each by blast
  have one': "\<forall>l l' s s'. Mapping.lookup (lemma_to_tokens st) l = Some s
            \<and> Mapping.lookup (lemma_to_tokens st) l' = Some s' \<and> s \<inter> s' \<noteq> {} \<longrightarrow> l = l'"
    using one by blast
  from st fin each' one' show ?thesis by (intro exI[of _ st]) simp
qed

theorem aggregate_invariants_witness:
  "\<exists>st. aggregate demo_morph demo_tokens empty_agg = Inr st
     \<and> sorted_list_of_set (tokens_set st) = [w_mir, w_mira, w_privet]
     \<and> Mapping.lookup (lemma_to_tokens st) w_mir = Some {w_mir, w_mira}
     \<and> distinct (sorted_list_of_set {w_mir, w_mira})
     \<and> {w_mir, w_mira} \<subseteq> tokens_set st
     \<and> lemma_of demo_morph w_mira = w_mir"
proof -
  from aggregate_invariants[of demo_morph demo_tokens] obtain st where
    st: "aggregate demo_morph demo_tokens empty_agg = Inr st"
    and inv: "\<forall>l s. Mapping.lookup (lemma_to_tokens st) l = Some s \<longrightarrow>
            finite s \<and> distinct (sorted_list_of_set s) \<and> set (sorted_list_of_set s) = s
            \<and> s \<subseteq> tokens_set st
            \<and> (\<forall>t \<in> s. top_parse demo_morph t \<noteq> None \<and> lemma_of demo_morph t = l)"
    by blast
  have look: "Mapping.lookup (lemma_to_tokens st) w_mir = Some {w_mir, w_mira}"
    using demo_result(2,3)[OF st] by (simp add: lookup_by_keys[of _ w_mir])
  from inv look have "distinct (sorted_list_of_set {w_mir, w_mira})"
    "{w_mir, w_mira} \<subseteq> tokens_set st" "lemma_of demo_morph w_mira = w_mir"
    by blast+
  with st look demo_lines(1)[OF st] show ?thesis by blast
qed

text \<open>
  C4. When the run completes, both files are written and, read back as lines
  and fields, are as follows, TokenSet and LemmaIndex being the containers the
  loop has built from the tokens of the pages. Each file is its lines, each ended
  by a newline. The lines of the token file are in strictly increasing order and
  are the tokens of TokenSet, so each token is on one line. In the lemma file the
  first fields of the lines are in strictly increasing order and are the keys of
  LemmaIndex, so each lemma has one line; on each line no field is empty, so the
  fields are separated by single spaces, and the fields after the first are at
  least one, are in strictly increasing order and are the tokens LemmaIndex
  holds for the lemma of the line.
\<close>

theorem output_files_sorted:
  "main parser morph w = (Inr (), w') \<longrightarrow>
     (\<exists>st tok_file lem_file.
        aggregate morph (collect_tokens parser (file_text w) (sort (pages_glob w)) []) empty_agg
          = Inr st
        \<and> tokens_txt w' = Some tok_file
        \<and> tok_file = concat (map (\<lambda>ln. ln @ [0x0A]) (read_lines [] tok_file))
        \<and> sorted_wrt (<) (read_lines [] tok_file)
        \<and> set (read_lines [] tok_file) = tokens_set st
        \<and> lemmas_txt w' = Some lem_file
        \<and> lem_file = concat (map (\<lambda>ln. ln @ [0x0A]) (read_lines [] lem_file))
        \<and> sorted_wrt (<) (map (\<lambda>ln. hd (line_fields [] ln)) (read_lines [] lem_file))
        \<and> set (map (\<lambda>ln. hd (line_fields [] ln)) (read_lines [] lem_file))
            = Mapping.keys (lemma_to_tokens st)
        \<and> (\<forall>ln \<in> set (read_lines [] lem_file).
              [] \<notin> set (line_fields [] ln)
              \<and> tl (line_fields [] ln) \<noteq> []
              \<and> sorted_wrt (<) (tl (line_fields [] ln))
              \<and> Mapping.lookup (lemma_to_tokens st) (hd (line_fields [] ln))
                  = Some (set (tl (line_fields [] ln)))))"
proof (intro impI)
  assume ok: "main parser morph w = (Inr (), w')"
  then have pre: "pages_isdir w" "pages_glob w \<noteq> []"
    using main_success by blast+
  let ?files = "sort (pages_glob w)"
  let ?toks = "collect_tokens parser (file_text w) ?files []"
  obtain st where st: "aggregate morph ?toks empty_agg = Inr st"
    using aggregate_total by blast
  let ?m = "lemma_to_tokens st"
  let ?ts = "sorted_list_of_set (tokens_set st)"
  let ?ls = "lemma_lines ?m"
  let ?line = "\<lambda>(l, toks). join [0x20] (l # toks)"
  let ?lines = "map ?line ?ls"
  let ?tok_file = "write_tokens ?ts"
  let ?lem_file = "concat (map (\<lambda>(l, ts). lemma_line l ts) ?ls)"
  note ts = aggregate_lookup(1)[OF st]
  note ks = aggregate_lookup(2)[OF st]
  note us = aggregate_lookup(3)[OF st]
  have fin: "finite (tokens_set st)" by (simp add: ts finite_token_set_of)
  have fink: "finite (Mapping.keys ?m)" by (rule finite_keys_aggregate[OF st])
  have finu: "finite (tokens_under ?m l)" for l
    using finite_token_set_of[of morph ?toks] by (simp add: us)
  have w': "w' = w\<lparr>tokens_txt := Some ?tok_file, lemmas_txt := Some ?lem_file,
        report := Some (card (tokens_set st), card (Mapping.keys ?m))\<rparr>"
    using ok pre by (simp add: main_ok process_ok[OF st])
  have tok_chars: "list_all ru_word_char t" if "t \<in> tokens_set st" for t
    using that collected_chars[of t parser "file_text w" ?files]
    by (simp add: ts token_set_of_eq)
  have tok_len: "t \<noteq> []" if "t \<in> tokens_set st" for t
    using that collected_length[of t parser "file_text w" ?files]
    by (auto simp: ts token_set_of_eq)
  have a: "\<forall>t \<in> set ?ts. 0x0A \<notin> set t"
    using fin tok_chars no_sep by simp
  have tl: "read_lines [] ?tok_file = ?ts"
    unfolding write_tokens_def using a by (rule read_lines_concat)
  have c: "toks \<noteq> [] \<and> sorted_wrt (<) toks \<and> l \<noteq> []
              \<and> 0x20 \<notin> set l \<and> 0x0A \<notin> set l
              \<and> (\<forall>t \<in> set toks. t \<noteq> [] \<and> 0x20 \<notin> set t \<and> 0x0A \<notin> set t)
              \<and> Mapping.lookup ?m l = Some (set toks)"
    if "(l, toks) \<in> set ?ls" for l toks
  proof -
    from that fink have l: "l \<in> Mapping.keys ?m"
      and toks: "toks = sorted_list_of_set (tokens_under ?m l)"
      by (auto simp: lemma_lines_def)
    from l obtain t where t: "t \<in> token_set_of morph ?toks" "lemma_of morph t = l"
      by (auto simp: ks)
    then have "t \<in> tokens_under ?m l" by (simp add: us)
    then have ne: "tokens_under ?m l \<noteq> {}" by blast
    have "toks \<noteq> []"
      using ne finu[of l] by (simp add: toks)
    moreover have "sorted_wrt (<) toks" by (simp add: toks)
    moreover have pw: "pattern_word l"
      using t accepted_lemma_word[of morph t] by (simp add: token_set_of_eq)
    then have "l \<noteq> []" by (auto simp: pattern_word_def)
    moreover from pw have "list_all ru_word_char l" by (simp add: pattern_word_def)
    then have "0x20 \<notin> set l \<and> 0x0A \<notin> set l" by (rule no_sep)
    moreover have "\<forall>u \<in> set toks. u \<noteq> [] \<and> 0x20 \<notin> set u \<and> 0x0A \<notin> set u"
    proof
      fix u assume "u \<in> set toks"
      then have "u \<in> tokens_set st" using finu[of l] by (simp add: toks us ts)
      then show "u \<noteq> [] \<and> 0x20 \<notin> set u \<and> 0x0A \<notin> set u"
        using tok_chars tok_len no_sep by blast
    qed
    moreover have "Mapping.lookup ?m l = Some (set toks)"
      using l finu[of l] by (simp add: lookup_by_keys[of ?m l] toks)
    ultimately show ?thesis by simp
  qed
  have lf: "?lem_file = concat (map (\<lambda>ln. ln @ [0x0A]) ?lines)"
  proof -
    have e: "map (\<lambda>(l, ts). lemma_line l ts) ?ls = map (\<lambda>ln. ln @ [0x0A]) ?lines"
      unfolding map_map by (rule map_cong[OF refl]) (auto dest: c simp: lemma_line_join)
    show ?thesis by (simp only: e)
  qed
  have nonl: "\<forall>ln \<in> set ?lines. 0x0A \<notin> set ln"
  proof
    fix ln assume "ln \<in> set ?lines"
    then obtain l toks where lt: "(l, toks) \<in> set ?ls" and ln: "ln = join [0x20] (l # toks)"
      by auto
    from c[OF lt] have "\<forall>x \<in> set (l # toks). 0x0A \<notin> set x" by simp
    then show "0x0A \<notin> set ln" unfolding ln by (rule join_no_newline)
  qed
  have ll: "read_lines [] ?lem_file = ?lines"
    unfolding lf using nonl by (rule read_lines_concat)
  have fl: "line_fields [] (join [0x20] (l # toks)) = l # toks" if "(l, toks) \<in> set ?ls" for l toks
    using c[OF that] by (intro fields_join) simp_all
  have heads: "map (\<lambda>ln. hd (line_fields [] ln)) ?lines = sorted_list_of_set (Mapping.keys ?m)"
  proof -
    have "map (\<lambda>ln. hd (line_fields [] ln)) ?lines = map fst ?ls"
      unfolding map_map by (rule map_cong[OF refl]) (auto simp: fl)
    then show ?thesis by (simp add: lemma_lines_def comp_def)
  qed
  have each: "\<forall>ln \<in> set ?lines.
              [] \<notin> set (line_fields [] ln)
              \<and> tl (line_fields [] ln) \<noteq> []
              \<and> sorted_wrt (<) (tl (line_fields [] ln))
              \<and> Mapping.lookup ?m (hd (line_fields [] ln)) = Some (set (tl (line_fields [] ln)))"
  proof
    fix ln assume "ln \<in> set ?lines"
    then obtain l toks where lt: "(l, toks) \<in> set ?ls" and ln: "ln = join [0x20] (l # toks)"
      by auto
    from c[OF lt] show "[] \<notin> set (line_fields [] ln)
              \<and> tl (line_fields [] ln) \<noteq> []
              \<and> sorted_wrt (<) (tl (line_fields [] ln))
              \<and> Mapping.lookup ?m (hd (line_fields [] ln)) = Some (set (tl (line_fields [] ln)))"
      unfolding ln fl[OF lt] by auto
  qed
  have t1: "tokens_txt w' = Some ?tok_file" and l1: "lemmas_txt w' = Some ?lem_file"
    by (simp_all add: w')
  have t2: "?tok_file = concat (map (\<lambda>ln. ln @ [0x0A]) (read_lines [] ?tok_file))"
    unfolding tl by (simp add: write_tokens_def)
  have t3: "sorted_wrt (<) (read_lines [] ?tok_file)"
    unfolding tl by simp
  have t4: "set (read_lines [] ?tok_file) = tokens_set st"
    unfolding tl using fin by simp
  have l2: "?lem_file = concat (map (\<lambda>ln. ln @ [0x0A]) (read_lines [] ?lem_file))"
    unfolding ll by (rule lf)
  have l3: "sorted_wrt (<) (map (\<lambda>ln. hd (line_fields [] ln)) (read_lines [] ?lem_file))"
    unfolding ll heads by simp
  have l4: "set (map (\<lambda>ln. hd (line_fields [] ln)) (read_lines [] ?lem_file)) = Mapping.keys ?m"
    unfolding ll heads using fink by simp
  have l5: "\<forall>ln \<in> set (read_lines [] ?lem_file).
              [] \<notin> set (line_fields [] ln)
              \<and> tl (line_fields [] ln) \<noteq> []
              \<and> sorted_wrt (<) (tl (line_fields [] ln))
              \<and> Mapping.lookup ?m (hd (line_fields [] ln)) = Some (set (tl (line_fields [] ln)))"
    unfolding ll by (rule each)
  from st t1 t2 t3 t4 l1 l2 l3 l4 l5
  show "\<exists>st tok_file lem_file.
        aggregate morph (collect_tokens parser (file_text w) (sort (pages_glob w)) []) empty_agg
          = Inr st
        \<and> tokens_txt w' = Some tok_file
        \<and> tok_file = concat (map (\<lambda>ln. ln @ [0x0A]) (read_lines [] tok_file))
        \<and> sorted_wrt (<) (read_lines [] tok_file)
        \<and> set (read_lines [] tok_file) = tokens_set st
        \<and> lemmas_txt w' = Some lem_file
        \<and> lem_file = concat (map (\<lambda>ln. ln @ [0x0A]) (read_lines [] lem_file))
        \<and> sorted_wrt (<) (map (\<lambda>ln. hd (line_fields [] ln)) (read_lines [] lem_file))
        \<and> set (map (\<lambda>ln. hd (line_fields [] ln)) (read_lines [] lem_file))
            = Mapping.keys (lemma_to_tokens st)
        \<and> (\<forall>ln \<in> set (read_lines [] lem_file).
              [] \<notin> set (line_fields [] ln)
              \<and> tl (line_fields [] ln) \<noteq> []
              \<and> sorted_wrt (<) (tl (line_fields [] ln))
              \<and> Mapping.lookup (lemma_to_tokens st) (hd (line_fields [] ln))
                  = Some (set (tl (line_fields [] ln))))"
    by blast
qed

theorem output_files_sorted_witness:
  "main plain_parser demo_morph demo_world =
     (Inr (), demo_world\<lparr>tokens_txt := Some demo_tokens_txt,
                          lemmas_txt := Some demo_lemmas_txt,
                          report := Some (3, 2)\<rparr>)
   \<and> read_lines [] demo_tokens_txt = [w_mir, w_mira, w_privet]
   \<and> map (line_fields []) (read_lines [] demo_lemmas_txt)
       = [[w_mir, w_mir, w_mira], [w_privet, w_privet]]
   \<and> (\<exists>st. aggregate demo_morph demo_tokens empty_agg = Inr st
         \<and> tokens_set st = {w_mir, w_mira, w_privet}
         \<and> Mapping.keys (lemma_to_tokens st) = {w_mir, w_privet}
         \<and> Mapping.lookup (lemma_to_tokens st) w_mir = Some {w_mir, w_mira}
         \<and> Mapping.lookup (lemma_to_tokens st) w_privet = Some {w_privet})"
proof -
  let ?w' = "demo_world\<lparr>tokens_txt := Some demo_tokens_txt,
                          lemmas_txt := Some demo_lemmas_txt,
                          report := Some (3, 2)\<rparr>"
  have rt: "read_lines [] demo_tokens_txt = [w_mir, w_mira, w_privet]"
    by (simp add: demo_tokens_txt_def w_mir_def w_mira_def w_privet_def)
  have rl: "read_lines [] demo_lemmas_txt =
      [w_mir @ 0x20 # w_mir @ 0x20 # w_mira, w_privet @ 0x20 # w_privet]"
    by (simp add: demo_lemmas_txt_def w_mir_def w_mira_def w_privet_def)
  have f1: "line_fields [] (w_mir @ 0x20 # w_mir @ 0x20 # w_mira) = [w_mir, w_mir, w_mira]"
    by (simp add: w_mir_def w_mira_def)
  have f2: "line_fields [] (w_privet @ 0x20 # w_privet) = [w_privet, w_privet]"
    by (simp add: w_privet_def)
  from output_files_sorted[of plain_parser demo_morph demo_world ?w'] demo_main
  obtain st tok_file lem_file where
    st: "aggregate demo_morph demo_tokens empty_agg = Inr st"
    and t: "tokens_txt ?w' = Some tok_file" "set (read_lines [] tok_file) = tokens_set st"
    and l: "lemmas_txt ?w' = Some lem_file"
      "set (map (\<lambda>ln. hd (line_fields [] ln)) (read_lines [] lem_file))
         = Mapping.keys (lemma_to_tokens st)"
      "\<forall>ln \<in> set (read_lines [] lem_file).
         Mapping.lookup (lemma_to_tokens st) (hd (line_fields [] ln))
           = Some (set (tl (line_fields [] ln)))"
    unfolding demo_collected by blast
  from t have ts: "tokens_set st = {w_mir, w_mira, w_privet}"
    by (auto simp: rt)
  from l have lem_file: "lem_file = demo_lemmas_txt" by simp
  from l(2) have ks: "Mapping.keys (lemma_to_tokens st) = {w_mir, w_privet}"
    unfolding lem_file rl by (simp add: f1 f2)
  from l(3) have l1: "Mapping.lookup (lemma_to_tokens st) w_mir = Some {w_mir, w_mira}"
    and l2: "Mapping.lookup (lemma_to_tokens st) w_privet = Some {w_privet}"
    unfolding lem_file rl by (simp_all add: f1 f2)
  from demo_main rt rl st ts ks l1 l2 show ?thesis
    by (simp add: f1 f2)
qed

text \<open>
  C6. Without the directory the run raises the error with the message for the
  missing directory, and with the directory but no page the error with the
  message for the missing pages; the two messages differ. In both cases nothing
  has been written, the world is as before, and the status of the process is
  not 0.
\<close>

theorem setup_errors:
  "(\<not> pages_isdir w \<longrightarrow>
      main parser morph w = (Inl (FileNotFoundError msg_no_dir), w)
      \<and> exit_status (fst (main parser morph w)) \<noteq> 0)
   \<and> (pages_isdir w \<and> pages_glob w = [] \<longrightarrow>
      main parser morph w = (Inl (FileNotFoundError msg_no_files), w)
      \<and> exit_status (fst (main parser morph w)) \<noteq> 0)
   \<and> msg_no_dir \<noteq> msg_no_files"
  by (simp add: main_def exit_status_def msg_no_dir_def msg_no_files_def)

theorem setup_errors_witness:
  "\<not> pages_isdir (demo_world\<lparr>pages_isdir := False\<rparr>)
   \<and> main plain_parser demo_morph (demo_world\<lparr>pages_isdir := False\<rparr>)
       = (Inl (FileNotFoundError msg_no_dir), demo_world\<lparr>pages_isdir := False\<rparr>)
   \<and> tokens_txt (snd (main plain_parser demo_morph (demo_world\<lparr>pages_isdir := False\<rparr>))) = None
   \<and> lemmas_txt (snd (main plain_parser demo_morph (demo_world\<lparr>pages_isdir := False\<rparr>))) = None
   \<and> pages_isdir (demo_world\<lparr>pages_glob := []\<rparr>)
   \<and> pages_glob (demo_world\<lparr>pages_glob := []\<rparr>) = []
   \<and> main plain_parser demo_morph (demo_world\<lparr>pages_glob := []\<rparr>)
       = (Inl (FileNotFoundError msg_no_files), demo_world\<lparr>pages_glob := []\<rparr>)
   \<and> tokens_txt (snd (main plain_parser demo_morph (demo_world\<lparr>pages_glob := []\<rparr>))) = None
   \<and> lemmas_txt (snd (main plain_parser demo_morph (demo_world\<lparr>pages_glob := []\<rparr>))) = None
   \<and> exit_status (Inl (FileNotFoundError msg_no_dir)) = 1
   \<and> exit_status (Inl (FileNotFoundError msg_no_files)) = 1"
proof -
  have a: "\<not> pages_isdir (demo_world\<lparr>pages_isdir := False\<rparr>)" by simp
  have b: "pages_isdir (demo_world\<lparr>pages_glob := []\<rparr>) \<and> pages_glob (demo_world\<lparr>pages_glob := []\<rparr>) = []"
    by (simp add: demo_world_def)
  from a b
    setup_errors[of "demo_world\<lparr>pages_isdir := False\<rparr>" plain_parser demo_morph]
    setup_errors[of "demo_world\<lparr>pages_glob := []\<rparr>" plain_parser demo_morph]
  show ?thesis by (simp add: demo_world_def exit_status_def)
qed

text \<open>
  C7. The analyzer being a function, the result of the loop does not depend on
  the order of the tokens, the result of the run from the loop over the files on
  does not depend on the order of the files, and the outcome, both files and the
  report of the whole run do not depend on the order in which the paths are
  listed.
\<close>

theorem order_independence:
  "(mset toks = mset toks' \<longrightarrow>
      aggregate morph toks empty_agg = aggregate morph toks' empty_agg)
   \<and> (mset files = mset files' \<longrightarrow>
      process parser morph files w = process parser morph files' w)
   \<and> (mset g = mset (pages_glob w) \<longrightarrow>
      fst (main parser morph (w\<lparr>pages_glob := g\<rparr>)) = fst (main parser morph w)
      \<and> tokens_txt (snd (main parser morph (w\<lparr>pages_glob := g\<rparr>)))
          = tokens_txt (snd (main parser morph w))
      \<and> lemmas_txt (snd (main parser morph (w\<lparr>pages_glob := g\<rparr>)))
          = lemmas_txt (snd (main parser morph w))
      \<and> report (snd (main parser morph (w\<lparr>pages_glob := g\<rparr>)))
          = report (snd (main parser morph w)))"
proof (intro conjI impI)
  assume "mset toks = mset toks'"
  then have "set toks = set toks'" by (rule mset_eq_setD)
  then show "aggregate morph toks empty_agg = aggregate morph toks' empty_agg"
    by (rule aggregate_set_cong)
next
  assume "mset files = mset files'"
  then have "set files = set files'" by (rule mset_eq_setD)
  then show "process parser morph files w = process parser morph files' w"
    by (rule process_perm)
next
  assume g: "mset g = mset (pages_glob w)"
  then have srt: "sort g = sort (pages_glob w)"
    by (metis properties_for_sort sorted_sort mset_sort)
  from g have nil: "g = [] \<longleftrightarrow> pages_glob w = []"
    by (metis mset_zero_iff)
  have m: "main parser morph (w\<lparr>pages_glob := g\<rparr>) =
      (fst (main parser morph w), (snd (main parser morph w))\<lparr>pages_glob := g\<rparr>)"
    using nil by (simp add: main_def Let_def srt sort_eq_Nil process_pages_glob)
  show "fst (main parser morph (w\<lparr>pages_glob := g\<rparr>)) = fst (main parser morph w)"
    "tokens_txt (snd (main parser morph (w\<lparr>pages_glob := g\<rparr>))) = tokens_txt (snd (main parser morph w))"
    "lemmas_txt (snd (main parser morph (w\<lparr>pages_glob := g\<rparr>))) = lemmas_txt (snd (main parser morph w))"
    "report (snd (main parser morph (w\<lparr>pages_glob := g\<rparr>))) = report (snd (main parser morph w))"
    by (simp_all add: m)
qed

theorem order_independence_witness:
  "mset [w_mir, w_mira] = mset [w_mira, w_mir]
   \<and> aggregate demo_morph [w_mir, w_mira] empty_agg = aggregate demo_morph [w_mira, w_mir] empty_agg
   \<and> mset [ustr ''pages/1.txt'', ustr ''pages/2.txt''] = mset (pages_glob demo_world)
   \<and> process plain_parser demo_morph [ustr ''pages/1.txt'', ustr ''pages/2.txt''] demo_world
       = process plain_parser demo_morph (pages_glob demo_world) demo_world
   \<and> tokens_txt (snd (main plain_parser demo_morph
         (demo_world\<lparr>pages_glob := [ustr ''pages/1.txt'', ustr ''pages/2.txt'']\<rparr>)))
       = Some demo_tokens_txt
   \<and> lemmas_txt (snd (main plain_parser demo_morph
         (demo_world\<lparr>pages_glob := [ustr ''pages/1.txt'', ustr ''pages/2.txt'']\<rparr>)))
       = Some demo_lemmas_txt"
proof -
  have a: "mset [w_mir, w_mira] = mset [w_mira, w_mir]" by simp
  have b: "mset [ustr ''pages/1.txt'', ustr ''pages/2.txt''] = mset (pages_glob demo_world)"
    by (simp add: demo_world_def)
  from a b
    order_independence[of "[w_mir, w_mira]" "[w_mira, w_mir]" demo_morph
      "[ustr ''pages/1.txt'', ustr ''pages/2.txt'']" "pages_glob demo_world" plain_parser
      demo_world "[ustr ''pages/1.txt'', ustr ''pages/2.txt'']"]
  show ?thesis by (simp add: demo_main)
qed

text \<open>
  C10. Every token of TokenSet is in the set of exactly one lemma of
  LemmaIndex. The run writes the sorted tokens to the token file and the lines
  of LemmaIndex to the lemma file, so every line of the token file is a token
  of exactly one line of the lemma file.
\<close>

theorem every_token_under_one_lemma:
  "\<exists>st. aggregate morph (collect_tokens parser (file_text w) files []) empty_agg = Inr st
     \<and> process parser morph files w =
         (Inr (),
          w\<lparr>tokens_txt := Some (write_tokens (sorted_list_of_set (tokens_set st))),
            lemmas_txt := Some (concat (map (\<lambda>(l, ts). lemma_line l ts)
                                          (lemma_lines (lemma_to_tokens st)))),
            report := Some (card (tokens_set st), card (Mapping.keys (lemma_to_tokens st)))\<rparr>)
     \<and> (\<forall>t \<in> tokens_set st. \<exists>!l. \<exists>s. Mapping.lookup (lemma_to_tokens st) l = Some s \<and> t \<in> s)
     \<and> (\<forall>t \<in> set (sorted_list_of_set (tokens_set st)).
           \<exists>!i. i < length (lemma_lines (lemma_to_tokens st))
                \<and> t \<in> set (snd (lemma_lines (lemma_to_tokens st) ! i)))"
proof -
  let ?toks = "collect_tokens parser (file_text w) files []"
  obtain st where st: "aggregate morph ?toks empty_agg = Inr st"
    using aggregate_total by blast
  let ?m = "lemma_to_tokens st"
  let ?ks = "sorted_list_of_set (Mapping.keys ?m)"
  note ts = aggregate_lookup(1)[OF st]
  note ks = aggregate_lookup(2)[OF st]
  note us = aggregate_lookup(3)[OF st]
  have fin: "finite (tokens_set st)" by (simp add: ts finite_token_set_of)
  have fink: "finite (Mapping.keys ?m)" by (rule finite_keys_aggregate[OF st])
  have finu: "finite (tokens_under ?m l)" for l
    using finite_token_set_of[of morph ?toks] by (simp add: us)
  have look: "(\<exists>s. Mapping.lookup ?m l = Some s \<and> t \<in> s) \<longleftrightarrow> (t \<in> tokens_set st \<and> lemma_of morph t = l)"
    for l t
    using us[of l] ks by (auto simp: lookup_by_keys[of ?m l] ts)
  have a: "\<forall>t \<in> tokens_set st. \<exists>!l. \<exists>s. Mapping.lookup ?m l = Some s \<and> t \<in> s"
    unfolding look by auto
  have len: "length (lemma_lines ?m) = length ?ks" by (simp add: lemma_lines_def)
  have line: "t \<in> set (snd (lemma_lines ?m ! i)) \<longleftrightarrow> (t \<in> tokens_set st \<and> lemma_of morph t = ?ks ! i)"
    if "i < length ?ks" for i t
    using that finu by (simp add: lemma_lines_def us ts)
  have b: "\<exists>!i. i < length (lemma_lines ?m) \<and> t \<in> set (snd (lemma_lines ?m ! i))"
    if "t \<in> tokens_set st" for t
  proof -
    from that have "lemma_of morph t \<in> set ?ks" using fink by (simp add: ks ts)
    then obtain i where i: "i < length ?ks" "?ks ! i = lemma_of morph t"
      by (auto simp: in_set_conv_nth)
    have d: "distinct ?ks" by simp
    show ?thesis
    proof (rule ex1I[of _ i])
      show "i < length (lemma_lines ?m) \<and> t \<in> set (snd (lemma_lines ?m ! i))"
        using i that by (simp add: len line)
    next
      fix j assume "j < length (lemma_lines ?m) \<and> t \<in> set (snd (lemma_lines ?m ! j))"
      then have "j < length ?ks" "?ks ! j = lemma_of morph t" by (auto simp: len line)
      with i d show "j = i" by (metis nth_eq_iff_index_eq)
    qed
  qed
  from st process_ok[OF st] a b fin show ?thesis by (intro exI[of _ st]) simp
qed

theorem every_token_under_one_lemma_witness:
  "\<exists>st. aggregate demo_morph demo_tokens empty_agg = Inr st
     \<and> process plain_parser demo_morph (sort (pages_glob demo_world)) demo_world =
         (Inr (), demo_world\<lparr>tokens_txt := Some demo_tokens_txt,
                              lemmas_txt := Some demo_lemmas_txt,
                              report := Some (3, 2)\<rparr>)
     \<and> w_mira \<in> tokens_set st
     \<and> (\<exists>!l. \<exists>s. Mapping.lookup (lemma_to_tokens st) l = Some s \<and> w_mira \<in> s)
     \<and> lemma_lines (lemma_to_tokens st) = [(w_mir, [w_mir, w_mira]), (w_privet, [w_privet])]
     \<and> (\<exists>!i. i < length (lemma_lines (lemma_to_tokens st))
            \<and> w_mira \<in> set (snd (lemma_lines (lemma_to_tokens st) ! i)))"
proof -
  from every_token_under_one_lemma[of demo_morph plain_parser demo_world
      "sort (pages_glob demo_world)"]
  obtain st where st: "aggregate demo_morph demo_tokens empty_agg = Inr st"
    and one: "\<forall>t \<in> tokens_set st. \<exists>!l. \<exists>s. Mapping.lookup (lemma_to_tokens st) l = Some s \<and> t \<in> s"
    and line: "\<forall>t \<in> set (sorted_list_of_set (tokens_set st)).
           \<exists>!i. i < length (lemma_lines (lemma_to_tokens st))
                \<and> t \<in> set (snd (lemma_lines (lemma_to_tokens st) ! i))"
    unfolding demo_collected by blast
  have mem: "w_mira \<in> tokens_set st" by (simp add: demo_result(1)[OF st])
  have mem': "w_mira \<in> set (sorted_list_of_set (tokens_set st))"
    by (simp add: demo_lines(1)[OF st])
  have pr: "process plain_parser demo_morph (sort (pages_glob demo_world)) demo_world =
         (Inr (), demo_world\<lparr>tokens_txt := Some demo_tokens_txt,
                              lemmas_txt := Some demo_lemmas_txt,
                              report := Some (3, 2)\<rparr>)"
    using demo_main by (simp add: main_ok demo_world_def)
  from st pr mem one[rule_format, OF mem] demo_lines(2)[OF st] line[rule_format, OF mem']
  show ?thesis by (intro exI[of _ st]) simp
qed

end
